theory Spec2Isabelle
  imports Complex_Main "HOL-Library.Sublist"
begin

section \<open>Data model\<close>

text \<open>
  Attribute values are JavaScript values. Numbers are modelled as reals: NaN and the
  infinities are not values of this model; where the source tests for them
  (\<^verbatim>\<open>Number.isFinite\<close>, a comparison with \<^verbatim>\<open>undefined\<close>) the
  model has an explicit branch.
\<close>

datatype jsval =
    Undefined
  | Null
  | Bool bool
  | Num real
  | Str string
  | Arr "jsval list"
  | Obj "(string \<times> jsval) list"

type_synonym attrs = "(string \<times> jsval) list"

text \<open>The truth value JavaScript gives a value in \<^verbatim>\<open>if (v)\<close>.\<close>

fun truthy :: "jsval \<Rightarrow> bool" where
  "truthy Undefined = False"
| "truthy Null = False"
| "truthy (Bool b) = b"
| "truthy (Num r) = (r \<noteq> 0)"
| "truthy (Str s) = (s \<noteq> [])"
| "truthy (Arr _) = True"
| "truthy (Obj _) = True"

text \<open>
  Reading a property of an object: \<^verbatim>\<open>o[k]\<close> is \<^verbatim>\<open>undefined\<close> when the
  key is absent. Writing keeps the position of an existing key and appends a new one.
\<close>

definition get_attr :: "attrs \<Rightarrow> string \<Rightarrow> jsval" where
  "get_attr a k = (case map_of a k of None \<Rightarrow> Undefined | Some v \<Rightarrow> v)"

fun set_attr :: "attrs \<Rightarrow> string \<Rightarrow> jsval \<Rightarrow> attrs" where
  "set_attr [] k v = [(k, v)]"
| "set_attr ((k', v') # a) k v = (if k' = k then (k, v) # a else (k', v') # set_attr a k v)"

text \<open>
  A node of the graph: its key, the coordinates \<^verbatim>\<open>x\<close> and \<^verbatim>\<open>y\<close>
  (\<open>None\<close> when the attribute is missing) and its other attributes.
\<close>

record node =
  nid :: string
  nx :: "real option"
  ny :: "real option"
  nattrs :: attrs

record edge =
  ekey :: string
  esrc :: string
  etgt :: string
  eattrs :: attrs

text \<open>
  A graphology \<^verbatim>\<open>MultiDirectedGraph\<close>: graph-level attributes, the nodes and the
  edges, both in insertion order, and the number of edge keys generated so far (the key
  of an edge added without one is built from this counter).
\<close>

record graph =
  gattrs :: attrs
  gnodes :: "node list"
  gedges :: "edge list"
  gcount :: nat

text \<open>
  The library keeps node keys unique and lets an edge join existing nodes only.
\<close>

definition edges_in_graph :: "graph \<Rightarrow> bool" where
  "edges_in_graph G \<longleftrightarrow>
     list_all (\<lambda>e. esrc e \<in> nid ` set (gnodes G) \<and> etgt e \<in> nid ` set (gnodes G)) (gedges G)"

definition wf_graph :: "graph \<Rightarrow> bool" where
  "wf_graph G \<longleftrightarrow>
     distinct (map nid (gnodes G)) \<and> distinct (map ekey (gedges G)) \<and> edges_in_graph G"

subsection \<open>Key order of a plain JavaScript object\<close>

text \<open>
  The own keys of a plain object are enumerated with the array indices first (canonical
  decimal strings below \<open>2^32 - 1\<close>), in ascending numeric order, and the other keys
  after them in the order of their first insertion. The adjacency of a graphology node
  is such an object keyed by neighbour.
\<close>

definition is_digit :: "char \<Rightarrow> bool" where
  "is_digit c \<longleftrightarrow> c \<in> set ''0123456789''"

definition digit_val :: "char \<Rightarrow> int" where
  "digit_val c = of_char c - 48"

definition dec_val :: "string \<Rightarrow> int" where
  "dec_val s = foldl (\<lambda>a c. 10 * a + digit_val c) 0 s"

definition is_array_index :: "string \<Rightarrow> bool" where
  "is_array_index s \<longleftrightarrow>
     s \<noteq> [] \<and> list_all is_digit s \<and> (s = ''0'' \<or> hd s \<noteq> CHR ''0'') \<and>
     dec_val s < 4294967295"

fun uniq_first :: "'a list \<Rightarrow> 'a list" where
  "uniq_first [] = []"
| "uniq_first (x # xs) = x # uniq_first (filter (\<lambda>y. y \<noteq> x) xs)"

definition js_key_order :: "string list \<Rightarrow> string list" where
  "js_key_order ks =
     (let u = uniq_first ks
      in sort_key dec_val (filter is_array_index u) @ filter (\<lambda>k. \<not> is_array_index k) u)"

lemma set_uniq_first [simp]: "set (uniq_first xs) = set xs"
  by (induction xs rule: uniq_first.induct) auto

lemma distinct_uniq_first [simp]: "distinct (uniq_first xs)"
  by (induction xs rule: uniq_first.induct) auto

lemma set_js_key_order [simp]: "set (js_key_order ks) = set ks"
  by (auto simp: js_key_order_def Let_def)

lemma distinct_js_key_order [simp]: "distinct (js_key_order ks)"
  by (auto simp: js_key_order_def Let_def)

subsection \<open>Graph queries\<close>

definition hasNode :: "graph \<Rightarrow> string \<Rightarrow> bool" where
  "hasNode G n \<longleftrightarrow> n \<in> nid ` set (gnodes G)"

definition out_edges :: "graph \<Rightarrow> string \<Rightarrow> edge list" where
  "out_edges G n = filter (\<lambda>e. esrc e = n) (gedges G)"

definition in_edges :: "graph \<Rightarrow> string \<Rightarrow> edge list" where
  "in_edges G n = filter (\<lambda>e. etgt e = n) (gedges G)"

definition outNeighbors :: "graph \<Rightarrow> string \<Rightarrow> string list" where
  "outNeighbors G n = js_key_order (map etgt (out_edges G n))"

definition inNeighbors :: "graph \<Rightarrow> string \<Rightarrow> string list" where
  "inNeighbors G n = js_key_order (map esrc (in_edges G n))"

definition outDegree :: "graph \<Rightarrow> string \<Rightarrow> nat" where
  "outDegree G n = length (out_edges G n)"

definition inDegree :: "graph \<Rightarrow> string \<Rightarrow> nat" where
  "inDegree G n = length (in_edges G n)"

text \<open>The degree of a node of a directed graph: a self-loop counts on both sides.\<close>

definition degree :: "graph \<Rightarrow> string \<Rightarrow> nat" where
  "degree G n = inDegree G n + outDegree G n"

section \<open>Simplifier: the endpoint predicate\<close>

text \<open>
  \<^verbatim>\<open>_is_endpoint\<close> of simplification.ts. The simplifier calls it on the nodes of the
  graph only (the library raises for a key that is not a node).
\<close>

definition is_endpoint :: "graph \<Rightarrow> string \<Rightarrow> bool" where
  "is_endpoint G node =
     (let neighbors = uniq_first (inNeighbors G node @ outNeighbors G node);
          n = length neighbors;
          d = degree G node
      in if node \<in> set neighbors then True
         else if inDegree G node = 0 \<or> outDegree G node = 0 then True
         else if \<not> (n = 2 \<and> (d = 2 \<or> d = 4)) then True
         else False)"

text \<open>The predicate as the specification words it.\<close>

definition has_self_loop :: "graph \<Rightarrow> string \<Rightarrow> bool" where
  "has_self_loop G n \<longleftrightarrow> (\<exists>e \<in> set (gedges G). esrc e = n \<and> etgt e = n)"

definition neighbor_set :: "graph \<Rightarrow> string \<Rightarrow> string set" where
  "neighbor_set G n =
     {m. \<exists>e \<in> set (gedges G). (esrc e = n \<and> etgt e = m) \<or> (etgt e = n \<and> esrc e = m)}"

definition spec_interstitial :: "graph \<Rightarrow> string \<Rightarrow> bool" where
  "spec_interstitial G n \<longleftrightarrow>
     card (neighbor_set G n - {n}) = 2 \<and> (degree G n = 2 \<or> degree G n = 4)"

definition spec_endpoint :: "graph \<Rightarrow> string \<Rightarrow> bool" where
  "spec_endpoint G n \<longleftrightarrow>
     (if has_self_loop G n then True
      else if inDegree G n = 0 \<or> outDegree G n = 0 then True
      else \<not> spec_interstitial G n)"

section \<open>Stats: streets per node\<close>

text \<open>
  \<^verbatim>\<open>count_streets_per_node\<close> of stats.ts. The two records of the source are maps;
  the loop over the edges threads both.
\<close>

type_synonym street_state = "(string \<rightharpoonup> nat) \<times> (string \<rightharpoonup> bool)"

definition count_edge :: "string set \<Rightarrow> edge \<Rightarrow> street_state \<Rightarrow> street_state" where
  "count_edge node_set e st =
     (let (street_counts, has_loop) = st; source = esrc e; target = etgt e
      in if source = target then
           (if source \<in> node_set then (street_counts, has_loop(source \<mapsto> True))
            else (street_counts, has_loop))
         else
           (let sc1 = (if source \<in> node_set
                       then street_counts(source \<mapsto>
                              (case street_counts source of None \<Rightarrow> 0 | Some c \<Rightarrow> c) + 1)
                       else street_counts);
                sc2 = (if target \<in> node_set
                       then sc1(target \<mapsto> (case sc1 target of None \<Rightarrow> 0 | Some c \<Rightarrow> c) + 1)
                       else sc1)
            in (sc2, has_loop)))"

definition add_loops :: "(string \<rightharpoonup> bool) \<Rightarrow> string \<Rightarrow> (string \<rightharpoonup> nat) \<Rightarrow> (string \<rightharpoonup> nat)" where
  "add_loops has_loop n street_counts =
     (if has_loop n = Some True
      then street_counts(n \<mapsto> (case street_counts n of None \<Rightarrow> 0 | Some c \<Rightarrow> c) + 2)
      else street_counts)"

definition count_streets_per_node :: "graph \<Rightarrow> string list option \<Rightarrow> (string \<rightharpoonup> nat)" where
  "count_streets_per_node G nodes =
     (let nodes_to_process = (case nodes of None \<Rightarrow> map nid (gnodes G) | Some ns \<Rightarrow> ns);
          node_set = set nodes_to_process;
          init = fold (\<lambda>n m. m(n \<mapsto> 0)) nodes_to_process Map.empty;
          (street_counts, has_loop) = fold (count_edge node_set) (gedges G) (init, Map.empty)
      in fold (add_loops has_loop) nodes_to_process street_counts)"





section \<open>Errors and graph updates\<close>

text \<open>
  The exceptions of the modelled code: the simplifier's own error, turf's refusal of a
  line of fewer than two positions, the library's errors for a key that is not a node
  and for adding a node that exists, and a failure inside the geometry library.
\<close>

datatype error = AlreadySimplified | LineStringTooShort | NotFound | NodeExists | GeometryError

definition find_node :: "graph \<Rightarrow> string \<Rightarrow> node option" where
  "find_node G n = find (\<lambda>nd. nid nd = n) (gnodes G)"

text \<open>\<^verbatim>\<open>G.dropNode(n)\<close> removes the node and every edge at it.\<close>

definition dropNode :: "string \<Rightarrow> graph \<Rightarrow> graph" where
  "dropNode n G =
     G\<lparr>gnodes := filter (\<lambda>nd. nid nd \<noteq> n) (gnodes G),
       gedges := filter (\<lambda>e. esrc e \<noteq> n \<and> etgt e \<noteq> n) (gedges G)\<rparr>"

text \<open>\<^verbatim>\<open>if (G.hasNode(node)) G.dropNode(node)\<close>\<close>

definition drop_if_present :: "string \<Rightarrow> graph \<Rightarrow> graph" where
  "drop_if_present n G = (if hasNode G n then dropNode n G else G)"

text \<open>
  \<^verbatim>\<open>G.neighbors(n)\<close> and \<^verbatim>\<open>G.forEachNeighbor\<close>: the in-neighbours, then the
  out-neighbours not yet seen.
\<close>

definition neighbors :: "graph \<Rightarrow> string \<Rightarrow> string list" where
  "neighbors G n = uniq_first (inNeighbors G n @ outNeighbors G n)"

section \<open>Connected components\<close>

text \<open>
  \<^verbatim>\<open>weaklyConnectedComponents\<close>: a depth-first search with an explicit stack over the
  neighbours in both directions. The loop ends because every push marks a node that was
  not visited before.
\<close>

definition edge_ends :: "graph \<Rightarrow> string set" where
  "edge_ends G = esrc ` set (gedges G) \<union> etgt ` set (gedges G)"

function wcc_search :: "graph \<Rightarrow> string set \<Rightarrow> string list \<Rightarrow> string list \<Rightarrow> string list \<times> string set" where
  "wcc_search G visited stack component =
     (if stack = [] then (component, visited)
      else
        (let current = last stack;
             fresh = filter (\<lambda>m. m \<notin> visited) (neighbors G current)
         in wcc_search G (visited \<union> set fresh) (butlast stack @ fresh) (component @ [current])))"
  by pat_completeness auto

lemma neighbors_edge_ends: "set (neighbors G n) \<subseteq> edge_ends G"
  by (auto simp: neighbors_def inNeighbors_def outNeighbors_def in_edges_def out_edges_def
      edge_ends_def)

lemma distinct_neighbors: "distinct (neighbors G n)"
  by (simp add: neighbors_def)

lemma finite_edge_ends: "finite (edge_ends G)"
  by (simp add: edge_ends_def)

lemma wcc_measure:
  assumes "stack \<noteq> []" and "distinct fresh" and "set fresh \<subseteq> E - visited" and "finite E"
  shows "2 * card (E - (visited \<union> set fresh)) + length (butlast stack @ fresh)
           < 2 * card (E - visited) + length stack"
proof -
  have eq: "E - (visited \<union> set fresh) = (E - visited) - set fresh" by auto
  have "card ((E - visited) - set fresh) = card (E - visited) - card (set fresh)"
    using assms(3,4) by (simp add: card_Diff_subset)
  moreover have "card (set fresh) = length fresh" using assms(2) by (rule distinct_card)
  moreover have "card (set fresh) \<le> card (E - visited)"
    using assms(3,4) by (simp add: card_mono)
  moreover have "length (butlast stack) = length stack - 1" by simp
  moreover have "1 \<le> length stack" using assms(1) by (cases stack) simp_all
  ultimately show ?thesis unfolding eq length_append by linarith
qed

termination wcc_search
proof (relation "measure (\<lambda>(G, visited, stack, component). 2 * card (edge_ends G - visited) + length stack)")
  show "wf (measure (\<lambda>(G, visited, stack, component). 2 * card (edge_ends G - visited) + length stack))"
    by simp
next
  fix G :: graph and visited :: "string set" and stack component :: "string list"
    and x xa
  assume s: "stack \<noteq> []" and x: "x = last stack"
    and xa: "xa = filter (\<lambda>m. m \<notin> visited) (neighbors G x)"
  have d: "distinct xa" using xa distinct_neighbors by simp
  have sub: "set xa \<subseteq> edge_ends G - visited"
    using xa neighbors_edge_ends [of G x] by auto
  from wcc_measure [OF s d sub finite_edge_ends]
  show "((G, visited \<union> set xa, butlast stack @ xa, component @ [x]), G, visited, stack, component)
        \<in> measure (\<lambda>(G, visited, stack, component). 2 * card (edge_ends G - visited) + length stack)"
    by simp
qed

definition wcc_visit :: "graph \<Rightarrow> node \<Rightarrow> string set \<times> string list list \<Rightarrow> string set \<times> string list list" where
  "wcc_visit G nd st =
     (let (visited, components) = st
      in if nid nd \<notin> visited
         then (let (component, visited') = wcc_search G (insert (nid nd) visited) [nid nd] []
               in (visited', components @ [component]))
         else (visited, components))"

definition weaklyConnectedComponents :: "graph \<Rightarrow> string list list" where
  "weaklyConnectedComponents G = snd (fold (wcc_visit G) (gnodes G) ({}, []))"

text \<open>The first component of greatest length.\<close>

fun largest_of :: "string list \<Rightarrow> string list list \<Rightarrow> string list" where
  "largest_of best [] = best"
| "largest_of best (c # cs) = largest_of (if length c > length best then c else best) cs"

text \<open>
  \<^verbatim>\<open>get_largest_component(G)\<close> with \<^verbatim>\<open>strongly = false\<close>, the only way the
  truncator calls it: a copy of the graph without the nodes outside the largest
  component.
\<close>

definition get_largest_component :: "graph \<Rightarrow> graph" where
  "get_largest_component G =
     (if gnodes G = [] then G
      else case weaklyConnectedComponents G of
             [] \<Rightarrow> G
           | c # cs \<Rightarrow>
               (let nodesToKeep = set (largest_of c cs)
                in fold (\<lambda>nd H. if nid nd \<notin> nodesToKeep then dropNode (nid nd) H else H)
                     (gnodes G) G))"

section \<open>Truncator: bounding box\<close>

text \<open>
  A relational comparison with a coordinate that may be missing: a comparison with
  \<^verbatim>\<open>undefined\<close> is false.
\<close>

definition js_gt :: "real option \<Rightarrow> real \<Rightarrow> bool" where
  "js_gt a b = (case a of None \<Rightarrow> False | Some v \<Rightarrow> v > b)"

definition js_lt :: "real option \<Rightarrow> real \<Rightarrow> bool" where
  "js_lt a b = (case a of None \<Rightarrow> False | Some v \<Rightarrow> v < b)"

type_synonym bbox = "real \<times> real \<times> real \<times> real"

definition outside :: "bbox \<Rightarrow> node \<Rightarrow> bool" where
  "outside bb nd =
     (let (north, south, east, west) = bb; y = ny nd; x = nx nd
      in js_gt y north \<or> js_lt y south \<or> js_gt x east \<or> js_lt x west)"

text \<open>
  The geometry library, taken as given: \<^verbatim>\<open>wellknown.parse\<close> (\<open>None\<close> when it throws)
  and \<^verbatim>\<open>booleanIntersects(turf.lineString(coordinates), bbox_to_poly(bbox))\<close>
  (\<open>None\<close> when turf throws).
\<close>

record geo_lib =
  wkt_parse :: "string \<Rightarrow> jsval option"
  line_intersects_bbox :: "jsval list \<Rightarrow> bbox \<Rightarrow> bool option"

text \<open>The coordinates of a geometry object of type LineString, if it is one.\<close>

definition linestring_coords :: "jsval \<Rightarrow> jsval list option" where
  "linestring_coords g =
     (case g of
        Obj kv \<Rightarrow>
          (if get_attr kv ''type'' = Str ''LineString''
           then (case get_attr kv ''coordinates'' of Arr cs \<Rightarrow> Some cs | _ \<Rightarrow> None)
           else None)
      | _ \<Rightarrow> None)"

definition edge_coordinates :: "geo_lib \<Rightarrow> jsval \<Rightarrow> jsval list" where
  "edge_coordinates lib geometry =
     (if truthy geometry then
        (case linestring_coords geometry of
           Some cs \<Rightarrow> cs
         | None \<Rightarrow>
             (case geometry of
                Str s \<Rightarrow>
                  (case wkt_parse lib s of
                     None \<Rightarrow> []
                   | Some geo \<Rightarrow>
                       (if truthy geo
                        then (case linestring_coords geo of Some cs \<Rightarrow> cs | None \<Rightarrow> [])
                        else []))
              | Arr cs \<Rightarrow> cs
              | _ \<Rightarrow> []))
      else [])"

definition endpoint_segment :: "node \<Rightarrow> node \<Rightarrow> jsval list" where
  "endpoint_segment u v =
     (case (nx u, ny u, nx v, ny v) of
        (Some ux, Some uy, Some vx, Some vy) \<Rightarrow> [Arr [Num ux, Num uy], Arr [Num vx, Num vy]]
      | _ \<Rightarrow> [])"

text \<open>One step of the loop over the edges when \<^verbatim>\<open>truncate_by_edge\<close> is set.\<close>

definition reprieve_edge ::
  "geo_lib \<Rightarrow> graph \<Rightarrow> bbox \<Rightarrow> string set \<Rightarrow> edge \<Rightarrow> error + string set \<Rightarrow> error + string set" where
  "reprieve_edge lib G bb outs e acc =
     (case acc of
        Inl err \<Rightarrow> Inl err
      | Inr keepOutside \<Rightarrow>
          (if esrc e \<notin> outs \<and> etgt e \<notin> outs then Inr keepOutside
           else
             (let coordinates = edge_coordinates lib (get_attr (eattrs e) ''geometry'')
              in case (if length coordinates < 2
                       then (case (find_node G (esrc e), find_node G (etgt e)) of
                               (Some u, Some v) \<Rightarrow>
                                 (case endpoint_segment u v of
                                    [] \<Rightarrow> Inr coordinates
                                  | seg \<Rightarrow> Inr seg)
                             | _ \<Rightarrow> Inl NotFound)
                       else Inr coordinates) of
                   Inl err \<Rightarrow> Inl err
                 | Inr coordinates' \<Rightarrow>
                     (if length coordinates' < 2 then Inr keepOutside
                      else case line_intersects_bbox lib coordinates' bb of
                             None \<Rightarrow> Inl GeometryError
                           | Some False \<Rightarrow> Inr keepOutside
                           | Some True \<Rightarrow>
                               Inr (keepOutside
                                     \<union> (if esrc e \<in> outs then {esrc e} else {})
                                     \<union> (if etgt e \<in> outs then {etgt e} else {}))))))"

definition truncate_graph_bbox ::
  "geo_lib \<Rightarrow> graph \<Rightarrow> bbox \<Rightarrow> bool \<Rightarrow> bool \<Rightarrow> error + graph" where
  "truncate_graph_bbox lib G bb truncate_by_edge retain_all =
     (let nodes_to_remove = map nid (filter (outside bb) (gnodes G))
      in case (if truncate_by_edge
               then (case fold (reprieve_edge lib G bb (set nodes_to_remove)) (gedges G) (Inr {}) of
                       Inl err \<Rightarrow> Inl err
                     | Inr keepOutside \<Rightarrow> Inr (filter (\<lambda>n. n \<notin> keepOutside) nodes_to_remove))
               else Inr nodes_to_remove) of
           Inl err \<Rightarrow> Inl err
         | Inr nodes_to_remove' \<Rightarrow>
             (let G' = fold drop_if_present nodes_to_remove' G
              in if \<not> retain_all then Inr (get_largest_component G') else Inr G'))"

text \<open>Graphs on which the truncator is evaluated.\<close>

definition no_geo_lib :: geo_lib where
  "no_geo_lib = \<lparr>wkt_parse = (\<lambda>s. None), line_intersects_bbox = (\<lambda>cs bb. Some False)\<rparr>"

definition unit_bbox :: bbox where
  "unit_bbox = (1, 0, 1, 0)"

definition stray_nodes :: graph where
  "stray_nodes =
     \<lparr>gattrs = [],
      gnodes = [\<lparr>nid = ''a'', nx = Some (1/2), ny = Some (1/2), nattrs = []\<rparr>,
                \<lparr>nid = ''b'', nx = None, ny = None, nattrs = []\<rparr>,
                \<lparr>nid = ''c'', nx = None, ny = Some 5, nattrs = []\<rparr>,
                \<lparr>nid = ''d'', nx = Some 2, ny = Some 2, nattrs = []\<rparr>,
                \<lparr>nid = ''e'', nx = None, ny = Some (1/2), nattrs = []\<rparr>],
      gedges = [\<lparr>ekey = ''e0'', esrc = ''a'', etgt = ''d'', eattrs = []\<rparr>], gcount = 1\<rparr>"


definition half_located :: graph where
  "half_located =
     \<lparr>gattrs = [],
      gnodes = [\<lparr>nid = ''c'', nx = None, ny = Some 5, nattrs = []\<rparr>],
      gedges = [], gcount = 0\<rparr>"

section \<open>Builder: ways to edges\<close>

text \<open>
  Node identifiers are integers in the map data and strings in the graph:
  \<^verbatim>\<open>u.toString()\<close> is the decimal numeral.
\<close>

fun show_nat :: "nat \<Rightarrow> string" where
  "show_nat n =
     (if n < 10 then [char_of (48 + n)] else show_nat (n div 10) @ [char_of (48 + n mod 10)])"

definition show_int :: "int \<Rightarrow> string" where
  "show_int i = (if i < 0 then CHR ''-'' # show_nat (nat (- i)) else show_nat (nat i))"

text \<open>
  \<^verbatim>\<open>G.addEdge(u, v, attributes)\<close>: the library raises when an end is not a node of
  the graph; the new edge comes last and takes a generated key.
\<close>

definition addEdge :: "graph \<Rightarrow> string \<Rightarrow> string \<Rightarrow> attrs \<Rightarrow> error + graph" where
  "addEdge G u v a =
     (if \<not> hasNode G u \<or> \<not> hasNode G v then Inl NotFound
      else Inr (G\<lparr>gedges := gedges G @
                    [\<lparr>ekey = ''geid_'' @ show_nat (gcount G), esrc = u, etgt = v, eattrs = a\<rparr>],
                  gcount := Suc (gcount G)\<rparr>))"

fun add_edges :: "(string \<times> string) list \<Rightarrow> attrs \<Rightarrow> graph \<Rightarrow> error + graph" where
  "add_edges [] a G = Inr G"
| "add_edges ((u, v) # es) a G =
     (case addEdge G u v a of Inl err \<Rightarrow> Inl err | Inr G' \<Rightarrow> add_edges es a G')"

text \<open>
  A path of the builder: the node sequence of a way and its remaining entries (the
  \<^verbatim>\<open>osmid\<close> and the kept tags). The settings object is not part of the sources at
  hand; the one setting \<^verbatim>\<open>_add_paths\<close> reads is a parameter.
\<close>

record way_path =
  pnodes :: "int list"
  pattrs :: attrs

record build_settings =
  all_oneway :: bool

definition oneway_values :: "string list" where
  "oneway_values = [''yes'', ''true'', ''1'', ''-1'', ''reverse'', ''T'', ''F'']"

definition reversed_values :: "string list" where
  "reversed_values = [''-1'', ''reverse'', ''T'']"

text \<open>\<^verbatim>\<open>"k" in attrs && values.has(attrs["k"])\<close> for a set of strings.\<close>

definition tag_in :: "attrs \<Rightarrow> string \<Rightarrow> string list \<Rightarrow> bool" where
  "tag_in a k vals \<longleftrightarrow>
     k \<in> fst ` set a \<and> (case get_attr a k of Str s \<Rightarrow> s \<in> set vals | _ \<Rightarrow> False)"

definition is_path_one_way :: "build_settings \<Rightarrow> attrs \<Rightarrow> bool \<Rightarrow> string list \<Rightarrow> bool" where
  "is_path_one_way st a bidirectional ow_values =
     (if all_oneway st then True
      else if bidirectional then False
      else if tag_in a ''oneway'' ow_values then True
      else if ''junction'' \<in> fst ` set a \<and> get_attr a ''junction'' = Str ''roundabout'' then True
      else False)"

definition is_path_reversed :: "attrs \<Rightarrow> string list \<Rightarrow> bool" where
  "is_path_reversed a rev_values = tag_in a ''oneway'' rev_values"

text \<open>The consecutive pairs of a node sequence.\<close>

definition node_pairs :: "int list \<Rightarrow> (int \<times> int) list" where
  "node_pairs ns = zip ns (tl ns)"

definition add_path :: "build_settings \<Rightarrow> bool \<Rightarrow> way_path \<Rightarrow> graph \<Rightarrow> error + graph" where
  "add_path st bidirectional p G =
     (let is_one_way = is_path_one_way st (pattrs p) bidirectional oneway_values;
          nodes = (if is_one_way \<and> is_path_reversed (pattrs p) reversed_values
                   then rev (pnodes p) else pnodes p);
          a1 = (if \<not> all_oneway st then set_attr (pattrs p) ''oneway'' (Bool is_one_way)
                else pattrs p);
          edges = node_pairs nodes;
          a2 = set_attr a1 ''reversed'' (Bool False)
      in case add_edges (map (\<lambda>(u, v). (show_int u, show_int v)) edges) a2 G of
           Inl err \<Rightarrow> Inl err
         | Inr G1 \<Rightarrow>
             (if \<not> is_one_way
              then add_edges (map (\<lambda>(u, v). (show_int v, show_int u)) edges)
                     (set_attr a2 ''reversed'' (Bool True)) G1
              else Inr G1))"

fun add_paths :: "build_settings \<Rightarrow> bool \<Rightarrow> way_path list \<Rightarrow> graph \<Rightarrow> error + graph" where
  "add_paths st bidirectional [] G = Inr G"
| "add_paths st bidirectional (p # ps) G =
     (case add_path st bidirectional p G of
        Inl err \<Rightarrow> Inl err
      | Inr G' \<Rightarrow> add_paths st bidirectional ps G')"

text \<open>The ends and the \<^verbatim>\<open>reversed\<close> flag of the edges of a graph, in order.\<close>

definition edge_summary :: "graph \<Rightarrow> (string \<times> string \<times> jsval) list" where
  "edge_summary G = map (\<lambda>e. (esrc e, etgt e, get_attr (eattrs e) ''reversed'')) (gedges G)"

text \<open>The way of the seed scenario, and a graph holding its three nodes.\<close>

definition backward_way :: way_path where
  "backward_way =
     \<lparr>pnodes = [1, 2, 3],
      pattrs = [(''osmid'', Num 7), (''highway'', Str ''residential''), (''oneway'', Str ''-1'')]\<rparr>"

definition three_nodes :: graph where
  "three_nodes =
     \<lparr>gattrs = [],
      gnodes = [\<lparr>nid = ''1'', nx = Some 0, ny = Some 0, nattrs = []\<rparr>,
                \<lparr>nid = ''2'', nx = Some 0, ny = Some 1, nattrs = []\<rparr>,
                \<lparr>nid = ''3'', nx = Some 0, ny = Some 2, nattrs = []\<rparr>],
      gedges = [], gcount = 0\<rparr>"

section \<open>Simplifier\<close>

text \<open>
  \<^verbatim>\<open>simplify_graph\<close> of simplification.ts. Two operations of the JavaScript runtime
  depend on what this value model does not carry (the text-to-number conversion of
  \<^verbatim>\<open>Number(v)\<close>, the identity of objects in \<^verbatim>\<open>new Set(vals)\<close>) and are
  parameters: \<open>to_finite v\<close> is \<^verbatim>\<open>Number(v)\<close> when that is finite,
  \<open>set_unique vals\<close> is \<^verbatim>\<open>[...new Set(vals)]\<close>. Attribute names are taken to be
  ordinary tag names, enumerated in insertion order.
\<close>

record js_runtime =
  to_finite :: "jsval \<Rightarrow> real option"
  set_unique :: "jsval list \<Rightarrow> jsval list"

text \<open>
  \<^verbatim>\<open>G.edges(u, v)\<close>: the edges from \<open>u\<close> to \<open>v\<close>; the library keeps parallel
  edges in a list headed by the one added last.
\<close>

definition edges_between :: "graph \<Rightarrow> string \<Rightarrow> string \<Rightarrow> edge list" where
  "edges_between G u v = rev (filter (\<lambda>e. esrc e = u \<and> etgt e = v) (gedges G))"

text \<open>
  \<^verbatim>\<open>_build_path\<close>: the walk from an endpoint through a successor, at most 10000
  steps; \<open>None\<close> is the \<^verbatim>\<open>null\<close> returned when the bound is reached.
\<close>

fun build_path_loop ::
  "nat \<Rightarrow> graph \<Rightarrow> string \<Rightarrow> string list \<Rightarrow> string list \<Rightarrow> string \<Rightarrow> string list option" where
  "build_path_loop 0 G endpoint endpoints path successor = None"
| "build_path_loop (Suc k) G endpoint endpoints path successor =
     (let successors = outNeighbors G successor
      in if successor \<in> set endpoints then Some path
         else
           (case filter (\<lambda>n. n \<notin> set path) successors of
              [v] \<Rightarrow> build_path_loop k G endpoint endpoints (path @ [v]) v
            | [] \<Rightarrow> (if endpoint \<in> set successors then Some (path @ [endpoint]) else Some path)
            | _ \<Rightarrow> Some path))"

definition build_path :: "graph \<Rightarrow> string \<Rightarrow> string \<Rightarrow> string list \<Rightarrow> string list option" where
  "build_path G endpoint endpoint_successor endpoints =
     build_path_loop 10000 G endpoint endpoints [endpoint, endpoint_successor] endpoint_successor"

text \<open>What the loop over the steps of one path collects.\<close>

record coll =
  c_attrs :: "(string \<times> jsval list) list"
  c_merged :: "jsval list"
  c_coords :: "jsval list"
  c_remove :: "string list"

fun push_attr :: "(string \<times> jsval list) list \<Rightarrow> string \<times> jsval \<Rightarrow> (string \<times> jsval list) list" where
  "push_attr [] (k, v) = [(k, [v])]"
| "push_attr ((k', vs) # pa) (k, v) =
     (if k' = k then (k', vs @ [v]) # pa else (k', vs) # push_attr pa (k, v))"

definition set_add :: "string list \<Rightarrow> string \<Rightarrow> string list" where
  "set_add xs x = (if x \<in> set xs then xs else xs @ [x])"

definition num_or_undef :: "real option \<Rightarrow> jsval" where
  "num_or_undef r = (case r of None \<Rightarrow> Undefined | Some v \<Rightarrow> Num v)"

definition node_position :: "node \<Rightarrow> jsval" where
  "node_position nd = Arr [num_or_undef (nx nd), num_or_undef (ny nd)]"

fun collect :: "graph \<Rightarrow> bool \<Rightarrow> nat \<Rightarrow> (string \<times> string) list \<Rightarrow> coll \<Rightarrow> error + coll" where
  "collect G track_merged i [] c = Inr c"
| "collect G track_merged i ((u, v) # ps) c =
     (if \<not> hasNode G u \<or> \<not> hasNode G v then Inl NotFound
      else case edges_between G u v of
             [] \<Rightarrow> collect G track_merged (Suc i) ps c
           | edge # _ \<Rightarrow>
               (case find_node G v of
                  None \<Rightarrow> Inl NotFound
                | Some vNode \<Rightarrow>
                    collect G track_merged (Suc i) ps
                      \<lparr>c_attrs = foldl push_attr (c_attrs c) (eattrs edge),
                       c_merged = (if track_merged then c_merged c @ [Arr [Str u, Str v]]
                                   else c_merged c),
                       c_coords = c_coords c @ [node_position vNode],
                       c_remove = (if i > 0 then set_add (c_remove c) u else c_remove c)\<rparr>))"

text \<open>The merged value of one attribute of a path.\<close>

definition finite_numbers :: "js_runtime \<Rightarrow> jsval \<Rightarrow> real list" where
  "finite_numbers rt v =
     (case v of
        Arr xs \<Rightarrow> List.map_filter (to_finite rt) xs
      | _ \<Rightarrow> (case to_finite rt v of None \<Rightarrow> [] | Some n \<Rightarrow> [n]))"

definition merge_attr :: "js_runtime \<Rightarrow> string \<times> jsval list \<Rightarrow> string \<times> jsval" where
  "merge_attr rt kv =
     (let (key, vals) = kv
      in if key = ''length''
         then (key, Num (foldl (+) 0 (concat (map (finite_numbers rt) vals))))
         else (case set_unique rt vals of
                 [v] \<Rightarrow> (key, v)
               | unique \<Rightarrow> (key, Arr unique)))"

text \<open>\<^verbatim>\<open>turf.lineString(coords).geometry\<close>: turf refuses fewer than two positions.\<close>

definition lineString :: "jsval list \<Rightarrow> error + jsval" where
  "lineString coords =
     (if length coords < 2 then Inl LineStringTooShort
      else Inr (Obj [(''type'', Str ''LineString''), (''coordinates'', Arr coords)]))"

type_synonym new_edge = "string \<times> string \<times> attrs"

text \<open>
  The body run for one path: the state is the set of nodes to remove and the list of
  edges to add.
\<close>

definition process_path ::
  "js_runtime \<Rightarrow> graph \<Rightarrow> bool \<Rightarrow> string list \<Rightarrow> string list \<times> new_edge list \<Rightarrow>
   error + string list \<times> new_edge list" where
  "process_path rt G track_merged path st =
     (let (nodes_to_remove, edges_to_add) = st
      in case find_node G (hd path) of
           None \<Rightarrow> Inl NotFound
         | Some startNode \<Rightarrow>
             (case collect G track_merged 0 (zip path (tl path))
                     \<lparr>c_attrs = [], c_merged = [], c_coords = [node_position startNode],
                      c_remove = nodes_to_remove\<rparr> of
                Inl err \<Rightarrow> Inl err
              | Inr c \<Rightarrow>
                  (case lineString (c_coords c) of
                     Inl err \<Rightarrow> Inl err
                   | Inr geometry \<Rightarrow>
                       (let a1 = foldl (\<lambda>a (k, v). set_attr a k v) [] (map (merge_attr rt) (c_attrs c));
                            a2 = set_attr a1 ''geometry'' geometry;
                            a3 = (if track_merged then set_attr a2 ''merged_edges'' (Arr (c_merged c))
                                  else a2)
                        in Inr (c_remove c, edges_to_add @ [(hd path, last path, a3)])))))"

text \<open>The callback of \<^verbatim>\<open>forEachOutNeighbor\<close> for one successor of an endpoint.\<close>

definition visit_successor ::
  "js_runtime \<Rightarrow> graph \<Rightarrow> bool \<Rightarrow> string list \<Rightarrow> string \<Rightarrow> string \<Rightarrow>
   error + string list \<times> new_edge list \<Rightarrow> error + string list \<times> new_edge list" where
  "visit_successor rt G track_merged endpoints endpoint successor acc =
     (case acc of
        Inl err \<Rightarrow> Inl err
      | Inr st \<Rightarrow>
          (if successor \<notin> set endpoints
           then (case build_path G endpoint successor endpoints of
                   None \<Rightarrow> Inr st
                 | Some path \<Rightarrow> process_path rt G track_merged path st)
           else Inr st))"

definition visit_endpoint ::
  "js_runtime \<Rightarrow> graph \<Rightarrow> bool \<Rightarrow> string list \<Rightarrow> string \<Rightarrow>
   error + string list \<times> new_edge list \<Rightarrow> error + string list \<times> new_edge list" where
  "visit_endpoint rt G track_merged endpoints endpoint acc =
     fold (visit_successor rt G track_merged endpoints endpoint) (outNeighbors G endpoint) acc"

text \<open>Adding the new edges stops at the first one the library refuses.\<close>

fun add_new_edges :: "new_edge list \<Rightarrow> graph \<Rightarrow> graph \<times> error option" where
  "add_new_edges [] G = (G, None)"
| "add_new_edges ((u, v, a) # es) G =
     (case addEdge G u v a of Inl err \<Rightarrow> (G, Some err) | Inr G' \<Rightarrow> add_new_edges es G')"

text \<open>
  Ring removal: a node with a self-loop whose only neighbour is itself is dropped.
\<close>

definition drop_ring :: "string \<Rightarrow> graph \<Rightarrow> graph" where
  "drop_ring n G =
     (if edges_between G n n \<noteq> [] \<and> neighbors G n = [n] then dropNode n G else G)"

text \<open>\<^verbatim>\<open>G.setNodeAttribute(n, k, v)\<close> on a node of the graph.\<close>

definition setNodeAttribute :: "string \<Rightarrow> string \<Rightarrow> jsval \<Rightarrow> graph \<Rightarrow> graph" where
  "setNodeAttribute n k v G =
     G\<lparr>gnodes := map (\<lambda>nd. if nid nd = n then nd\<lparr>nattrs := set_attr (nattrs nd) k v\<rparr> else nd)
                    (gnodes G)\<rparr>"

text \<open>
  The last loop: the keys of the record of counts are the nodes of the graph, enumerated
  in the key order of a plain object.
\<close>

definition set_street_counts :: "graph \<Rightarrow> graph" where
  "set_street_counts G =
     (let street_counts = count_streets_per_node G None
      in fold (\<lambda>n H. case street_counts n of
                        None \<Rightarrow> H
                      | Some c \<Rightarrow> setNodeAttribute n ''street_count'' (Num (real c)) H)
           (js_key_order (map nid (gnodes G))) G)"

text \<open>
  The result is the graph as the call leaves it (the graph is updated in place) and the
  exception raised, if any.
\<close>

definition simplify_graph ::
  "js_runtime \<Rightarrow> graph \<Rightarrow> bool \<Rightarrow> bool \<Rightarrow> graph \<times> error option" where
  "simplify_graph rt G remove_rings track_merged =
     (if truthy (get_attr (gattrs G) ''simplified'') then (G, Some AlreadySimplified)
      else
        (let endpoints = filter (is_endpoint G) (map nid (gnodes G))
         in case fold (visit_endpoint rt G track_merged endpoints) endpoints (Inr ([], [])) of
              Inl err \<Rightarrow> (G, Some err)
            | Inr (nodes_to_remove, edges_to_add) \<Rightarrow>
                (case add_new_edges edges_to_add G of
                   (G1, Some err) \<Rightarrow> (G1, Some err)
                 | (G1, None) \<Rightarrow>
                     (let G2 = fold drop_if_present nodes_to_remove G1;
                          G3 = (if remove_rings then fold drop_ring (map nid (gnodes G2)) G2
                                else G2);
                          G4 = G3\<lparr>gattrs := set_attr (gattrs G3) ''simplified'' (Bool True)\<rparr>
                      in (set_street_counts G4, None)))))"

text \<open>
  A runtime for evaluation (numbers convert to themselves, values are compared
  structurally) and the chain of the seed scenario: four nodes joined both ways.
\<close>

definition plain_runtime :: js_runtime where
  "plain_runtime =
     \<lparr>to_finite = (\<lambda>v. case v of Num r \<Rightarrow> Some r | _ \<Rightarrow> None), set_unique = uniq_first\<rparr>"

definition chain4 :: graph where
  "chain4 =
     \<lparr>gattrs = [(''crs'', Str ''epsg:4326'')],
      gnodes = [\<lparr>nid = ''1'', nx = Some 0, ny = Some 0, nattrs = []\<rparr>,
                \<lparr>nid = ''2'', nx = Some 0, ny = Some 1, nattrs = []\<rparr>,
                \<lparr>nid = ''3'', nx = Some 0, ny = Some 2, nattrs = []\<rparr>,
                \<lparr>nid = ''4'', nx = Some 0, ny = Some 3, nattrs = []\<rparr>],
      gedges = [\<lparr>ekey = ''geid_0'', esrc = ''1'', etgt = ''2'',
                  eattrs = [(''osmid'', Num 7), (''length'', Num 10), (''reversed'', Bool False)]\<rparr>,
                \<lparr>ekey = ''geid_1'', esrc = ''2'', etgt = ''3'',
                  eattrs = [(''osmid'', Num 7), (''length'', Num 10), (''reversed'', Bool False)]\<rparr>,
                \<lparr>ekey = ''geid_2'', esrc = ''3'', etgt = ''4'',
                  eattrs = [(''osmid'', Num 8), (''length'', Num 10), (''reversed'', Bool False)]\<rparr>,
                \<lparr>ekey = ''geid_3'', esrc = ''2'', etgt = ''1'',
                  eattrs = [(''osmid'', Num 7), (''length'', Num 10), (''reversed'', Bool True)]\<rparr>,
                \<lparr>ekey = ''geid_4'', esrc = ''3'', etgt = ''2'',
                  eattrs = [(''osmid'', Num 7), (''length'', Num 10), (''reversed'', Bool True)]\<rparr>,
                \<lparr>ekey = ''geid_5'', esrc = ''4'', etgt = ''3'',
                  eattrs = [(''osmid'', Num 8), (''length'', Num 10), (''reversed'', Bool True)]\<rparr>],
      gcount = 6\<rparr>"

text \<open>In the proofs: every edge to add joins nodes of the graph.\<close>

definition new_edges_ok :: "graph \<Rightarrow> new_edge list \<Rightarrow> bool" where
  "new_edges_ok G es \<longleftrightarrow> list_all (\<lambda>(u, v, a). hasNode G u \<and> hasNode G v) es"


section \<open>Consolidator\<close>

text \<open>
  \<^verbatim>\<open>is_projected\<close> of the projection module: a non-empty string other than
  \<open>EPSG:4326\<close>, compared in upper case (ASCII letters).
\<close>

definition to_upper :: "char \<Rightarrow> char" where
  "to_upper c = (let n = of_char c :: nat in if 97 \<le> n \<and> n \<le> 122 then char_of (n - 32) else c)"

definition is_projected :: "jsval \<Rightarrow> bool" where
  "is_projected crs =
     (if \<not> truthy crs then False
      else case crs of Str s \<Rightarrow> map to_upper s \<noteq> ''EPSG:4326'' | _ \<Rightarrow> False)"

text \<open>\<^verbatim>\<open>great_circle\<close> of the distance module, with the default earth radius.\<close>

definition great_circle :: "real \<Rightarrow> real \<Rightarrow> real \<Rightarrow> real \<Rightarrow> real" where
  "great_circle lat1 lon1 lat2 lon2 =
     (let y1 = lat1 * pi / 180; y2 = lat2 * pi / 180; delta_y = y2 - y1;
          x1 = lon1 * pi / 180; x2 = lon2 * pi / 180; delta_x = x2 - x1;
          h = (sin (delta_y / 2))\<^sup>2 + cos y1 * cos y2 * (sin (delta_x / 2))\<^sup>2;
          h_clamped = min 1 h;
          arc = 2 * arcsin (sqrt h_clamped)
      in arc * 6371009)"

text \<open>The positions of the nodes that have both coordinates.\<close>

type_synonym coords = "string \<rightharpoonup> real \<times> real"

definition node_coords :: "graph \<Rightarrow> coords" where
  "node_coords G =
     fold (\<lambda>nd m. case (nx nd, ny nd) of (Some x, Some y) \<Rightarrow> m(nid nd \<mapsto> (x, y)) | _ \<Rightarrow> m)
       (gnodes G) Map.empty"

text \<open>
  The local function \<^verbatim>\<open>distance\<close>; \<open>None\<close> is the \<^verbatim>\<open>Infinity\<close> returned for a
  node without a position.
\<close>

definition distance :: "bool \<Rightarrow> coords \<Rightarrow> string \<Rightarrow> string \<Rightarrow> real option" where
  "distance projected cs a b =
     (case (cs a, cs b) of
        (Some (ax, ay), Some (bx, by)) \<Rightarrow>
          (if projected
           then (let dx = ax - bx; dy = ay - by in Some (sqrt (dx * dx + dy * dy)))
           else Some (great_circle ay ax by bx))
      | _ \<Rightarrow> None)"

text \<open>\<^verbatim>\<open>distance(ni, nj) <= threshold\<close>\<close>

definition within_threshold :: "bool \<Rightarrow> coords \<Rightarrow> real \<Rightarrow> string \<Rightarrow> string \<Rightarrow> bool" where
  "within_threshold projected cs threshold a b =
     (case distance projected cs a b of None \<Rightarrow> False | Some d \<Rightarrow> d \<le> threshold)"

subsection \<open>Union-find\<close>

text \<open>
  The local functions \<^verbatim>\<open>find\<close> (with path compression) and \<^verbatim>\<open>union\<close> update
  the record \<^verbatim>\<open>parent\<close>; the model returns the updated record. \<^verbatim>\<open>find\<close> is
  recursive along the parent links: a result \<open>None\<close> stands for a call that does not
  return.
\<close>

type_synonym parents = "string \<rightharpoonup> string"

partial_function (option) uf_find :: "parents \<Rightarrow> string \<Rightarrow> (string \<times> parents) option" where
  "uf_find parent x =
     (let p1 = (case parent x of None \<Rightarrow> parent(x \<mapsto> x) | Some _ \<Rightarrow> parent);
          px = (case p1 x of None \<Rightarrow> x | Some y \<Rightarrow> y)
      in if px \<noteq> x
         then Option.bind (uf_find p1 px) (\<lambda>(r, p2). Some (r, p2(x \<mapsto> r)))
         else Some (px, p1))"

definition uf_union :: "parents \<Rightarrow> string \<Rightarrow> string \<Rightarrow> parents option" where
  "uf_union parent a b =
     Option.bind (uf_find parent a) (\<lambda>(ra, p1).
       Option.bind (uf_find p1 b) (\<lambda>(rb, p2).
         Some (if ra \<noteq> rb then p2(rb \<mapsto> ra) else p2)))"

text \<open>The double loop over the pairs \<open>i < j\<close> of the nodes with a position.\<close>

fun union_row :: "(string \<Rightarrow> string \<Rightarrow> bool) \<Rightarrow> string \<Rightarrow> string list \<Rightarrow> parents \<Rightarrow> parents option" where
  "union_row near ni [] parent = Some parent"
| "union_row near ni (nj # rest) parent =
     (if near ni nj then Option.bind (uf_union parent ni nj) (union_row near ni rest)
      else union_row near ni rest parent)"

fun union_all :: "(string \<Rightarrow> string \<Rightarrow> bool) \<Rightarrow> string list \<Rightarrow> parents \<Rightarrow> parents option" where
  "union_all near [] parent = Some parent"
| "union_all near (ni # rest) parent =
     Option.bind (union_row near ni rest parent) (union_all near rest)"

text \<open>\<^verbatim>\<open>clustersByRoot\<close>: the members of each root, in the order they are met.\<close>

fun push_member :: "(string \<times> string list) list \<Rightarrow> string \<Rightarrow> string \<Rightarrow> (string \<times> string list) list" where
  "push_member [] r n = [(r, [n])]"
| "push_member ((r', ns) # cl) r n =
     (if r' = r then (r', ns @ [n]) # cl else (r', ns) # push_member cl r n)"

fun cluster_nodes ::
  "string list \<Rightarrow> parents \<Rightarrow> (string \<times> string list) list \<Rightarrow> (string \<times> string list) list option" where
  "cluster_nodes [] parent cl = Some cl"
| "cluster_nodes (n # ns) parent cl =
     Option.bind (uf_find parent n) (\<lambda>(r, p'). cluster_nodes ns p' (push_member cl r n))"

text \<open>\<^verbatim>\<open>Object.values(clustersByRoot)\<close>, in the key order of a plain object.\<close>

definition object_values :: "(string \<times> 'v) list \<Rightarrow> 'v list" where
  "object_values kvs = List.map_filter (map_of kvs) (js_key_order (map fst kvs))"

subsection \<open>The new graph\<close>

text \<open>
  The order of \<^verbatim>\<open>Array.prototype.sort\<close> without a comparator, on strings: by code
  unit, a proper prefix first.
\<close>

fun str_less :: "string \<Rightarrow> string \<Rightarrow> bool" where
  "str_less [] [] = False"
| "str_less [] (b # bs) = True"
| "str_less (a # as) [] = False"
| "str_less (a # as) (b # bs) =
     ((of_char a :: nat) < of_char b \<or> (a = b \<and> str_less as bs))"

definition least_string :: "string \<Rightarrow> string list \<Rightarrow> string" where
  "least_string x xs = fold (\<lambda>n best. if str_less n best then n else best) xs x"

text \<open>\<^verbatim>\<open>G.addNode(n, attributes)\<close>: the library raises when the key is taken.\<close>

definition addNode :: "node \<Rightarrow> graph \<Rightarrow> error + graph" where
  "addNode nd G =
     (if hasNode G (nid nd) then Inl NodeExists else Inr (G\<lparr>gnodes := gnodes G @ [nd]\<rparr>))"

type_synonym build_state = "graph \<times> (string \<rightharpoonup> string)"

text \<open>The body of the loop over the clusters.\<close>

definition add_cluster :: "graph \<Rightarrow> coords \<Rightarrow> string list \<Rightarrow> error + build_state \<Rightarrow> error + build_state" where
  "add_cluster G cs cluster acc =
     (case acc of
        Inl err \<Rightarrow> Inl err
      | Inr (newG, repMap) \<Rightarrow>
          (case cluster of
             [] \<Rightarrow> Inl NotFound
           | c # rest \<Rightarrow>
               (let rep = least_string c rest;
                    sx = foldl (\<lambda>a n. a + (case cs n of None \<Rightarrow> 0 | Some (x, y) \<Rightarrow> x)) 0 cluster;
                    sy = foldl (\<lambda>a n. a + (case cs n of None \<Rightarrow> 0 | Some (x, y) \<Rightarrow> y)) 0 cluster;
                    repMap' = fold (\<lambda>n m. m(n \<mapsto> rep)) cluster repMap;
                    cx = sx / real (length cluster);
                    cy = sy / real (length cluster)
                in case find_node G rep of
                     None \<Rightarrow> Inl NotFound
                   | Some a \<Rightarrow>
                       (case addNode \<lparr>nid = rep, nx = Some cx, ny = Some cy,
                                      nattrs = set_attr (nattrs a) ''_merged_nodes''
                                                 (Arr (map Str cluster))\<rparr> newG of
                          Inl err \<Rightarrow> Inl err
                        | Inr newG' \<Rightarrow> Inr (newG', repMap')))))"

text \<open>The body of the loop that keeps the nodes without a position.\<close>

definition add_unlocated :: "coords \<Rightarrow> node \<Rightarrow> error + build_state \<Rightarrow> error + build_state" where
  "add_unlocated cs nd acc =
     (case acc of
        Inl err \<Rightarrow> Inl err
      | Inr (newG, repMap) \<Rightarrow>
          (if cs (nid nd) \<noteq> None then Inr (newG, repMap)
           else if \<not> hasNode newG (nid nd)
           then (case addNode (nd\<lparr>nattrs := set_attr (nattrs nd) ''_merged_nodes''
                                                (Arr [Str (nid nd)])\<rparr>) newG of
                   Inl err \<Rightarrow> Inl err
                 | Inr newG' \<Rightarrow> Inr (newG', repMap(nid nd \<mapsto> nid nd)))
           else Inr (newG, repMap(nid nd \<mapsto> nid nd))))"

text \<open>The body of the loop over the edges.\<close>

definition remap_edge :: "(string \<rightharpoonup> string) \<Rightarrow> edge \<Rightarrow> error + graph \<Rightarrow> error + graph" where
  "remap_edge repMap e acc =
     (case acc of
        Inl err \<Rightarrow> Inl err
      | Inr newG \<Rightarrow>
          (let u2 = (case repMap (esrc e) of None \<Rightarrow> esrc e | Some r \<Rightarrow> r);
               v2 = (case repMap (etgt e) of None \<Rightarrow> etgt e | Some r \<Rightarrow> r)
           in addEdge newG u2 v2 (eattrs e)))"

definition build_consolidated :: "graph \<Rightarrow> coords \<Rightarrow> string list list \<Rightarrow> error + graph" where
  "build_consolidated G cs clusters =
     (let newG = \<lparr>gattrs = set_attr [] ''crs'' (get_attr (gattrs G) ''crs''),
                  gnodes = [], gedges = [], gcount = 0\<rparr>
      in case fold (add_unlocated cs) (gnodes G)
                (fold (add_cluster G cs) clusters (Inr (newG, Map.empty))) of
           Inl err \<Rightarrow> Inl err
         | Inr (newG', repMap) \<Rightarrow> fold (remap_edge repMap) (gedges G) (Inr newG'))"

text \<open>
  \<^verbatim>\<open>consolidate_intersections(G, tolerance)\<close>: \<open>None\<close> if a \<^verbatim>\<open>find\<close> does not
  return, otherwise the exception raised or the new graph.
\<close>

definition cluster_lists :: "graph \<Rightarrow> real \<Rightarrow> string list list option" where
  "cluster_lists G tolerance =
     (let cs = node_coords G;
          graphCrs = get_attr (gattrs G) ''crs'';
          projected = is_projected (case graphCrs of Str s \<Rightarrow> Str s | _ \<Rightarrow> Undefined);
          threshold = 2 * tolerance;
          coordNodes = filter (\<lambda>n. cs n \<noteq> None) (map nid (gnodes G))
      in Option.bind (union_all (within_threshold projected cs threshold) coordNodes Map.empty) (\<lambda>parent.
           Option.bind (cluster_nodes coordNodes parent []) (\<lambda>clustersByRoot.
             Some (object_values clustersByRoot))))"

definition consolidate_intersections :: "graph \<Rightarrow> real \<Rightarrow> (error + graph) option" where
  "consolidate_intersections G tolerance =
     Option.bind (cluster_lists G tolerance) (\<lambda>clusters.
       Some (build_consolidated G (node_coords G) clusters))"

text \<open>In the proofs: the parent links that leave a node, as a relation from parent to child.\<close>

definition uf_rel :: "parents \<Rightarrow> (string \<times> string) set" where
  "uf_rel p = {(y, x). p x = Some y \<and> y \<noteq> x}"

text \<open>In the proofs: the links are well-founded and join nodes related by \<open>L\<close>.\<close>

definition uf_inv :: "(string \<times> string) set \<Rightarrow> parents \<Rightarrow> bool" where
  "uf_inv L p \<longleftrightarrow> wf (uf_rel p) \<and> (\<forall>x y. p x = Some y \<longrightarrow> (x, y) \<in> L)"

text \<open>In the proofs: the lists are pairwise disjoint.\<close>

fun disj_lists :: "string list list \<Rightarrow> bool" where
  "disj_lists [] = True"
| "disj_lists (c # cs) = (set c \<inter> \<Union> (set ` set cs) = {} \<and> disj_lists cs)"

text \<open>The pairs of nodes within the threshold \<open>2t\<close> of each other, by the distance the
  consolidator uses for the graph.\<close>

definition proximity :: "graph \<Rightarrow> real \<Rightarrow> (string \<times> string) set" where
  "proximity G t =
     {(a, b). within_threshold
                (is_projected (case get_attr (gattrs G) ''crs'' of Str s \<Rightarrow> Str s | _ \<Rightarrow> Undefined))
                (node_coords G) (2 * t) a b}"

text \<open>In the proofs: the members of a cluster are nodes met so far, related to its root.\<close>

definition clusters_sound :: "(string \<times> string) set \<Rightarrow> string set \<Rightarrow> (string \<times> string list) list \<Rightarrow> bool" where
  "clusters_sound L P cl \<longleftrightarrow>
     (\<forall>k ms. map_of cl k = Some ms \<longrightarrow> ms \<noteq> [] \<and> set ms \<subseteq> P \<and> (\<forall>m \<in> set ms. (m, k) \<in> L))"

text \<open>In the proofs: the clusters are disjoint and cover the nodes met so far.\<close>

definition clusters_part :: "string set \<Rightarrow> (string \<times> string list) list \<Rightarrow> bool" where
  "clusters_part P cl \<longleftrightarrow>
     (\<forall>k1 k2 ms1 ms2. map_of cl k1 = Some ms1 \<and> map_of cl k2 = Some ms2 \<and> k1 \<noteq> k2 \<longrightarrow>
        set ms1 \<inter> set ms2 = {}) \<and>
     (\<forall>n \<in> P. \<exists>k ms. map_of cl k = Some ms \<and> n \<in> set ms)"

definition clusters_inv :: "(string \<times> string) set \<Rightarrow> string set \<Rightarrow> (string \<times> string list) list \<Rightarrow> bool" where
  "clusters_inv L P cl \<longleftrightarrow> clusters_sound L P cl \<and> clusters_part P cl"

text \<open>In the proofs: every representative is a node of the new graph.\<close>

definition reps_in :: "graph \<Rightarrow> (string \<rightharpoonup> string) \<Rightarrow> bool" where
  "reps_in H m \<longleftrightarrow> (\<forall>n r. m n = Some r \<longrightarrow> hasNode H r)"

text \<open>In the proofs: the loops over the nodes leave attributes, edges and counter alone.\<close>

definition same_frame :: "graph \<Rightarrow> graph \<Rightarrow> bool" where
  "same_frame H H0 \<longleftrightarrow> gattrs H = gattrs H0 \<and> gedges H = gedges H0 \<and> gcount H = gcount H0"

text \<open>Three nodes on a line in a projected system, 15 m apart, and the graph their
  consolidation with tolerance 10 gives.\<close>

definition line3 :: graph where
  "line3 =
     \<lparr>gattrs = [(''crs'', Str ''EPSG:32633''), (''simplified'', Bool True)],
      gnodes = [\<lparr>nid = ''a'', nx = Some 0, ny = Some 0, nattrs = []\<rparr>,
                \<lparr>nid = ''b'', nx = Some 15, ny = Some 0, nattrs = []\<rparr>,
                \<lparr>nid = ''c'', nx = Some 30, ny = Some 0, nattrs = []\<rparr>],
      gedges = [\<lparr>ekey = ''geid_0'', esrc = ''a'', etgt = ''b'', eattrs = []\<rparr>,
                \<lparr>ekey = ''geid_1'', esrc = ''b'', etgt = ''c'', eattrs = []\<rparr>],
      gcount = 2\<rparr>"

definition line3_merged :: graph where
  "line3_merged =
     \<lparr>gattrs = [(''crs'', Str ''EPSG:32633'')],
      gnodes = [\<lparr>nid = ''a'', nx = Some 15, ny = Some 0,
                  nattrs = [(''_merged_nodes'', Arr [Str ''a'', Str ''b'', Str ''c''])]\<rparr>],
      gedges = [\<lparr>ekey = ''geid_0'', esrc = ''a'', etgt = ''a'', eattrs = []\<rparr>,
                \<lparr>ekey = ''geid_1'', esrc = ''a'', etgt = ''a'', eattrs = []\<rparr>],
      gcount = 2\<rparr>"

section \<open>GraphML codec: attribute values\<close>

text \<open>
  \<^verbatim>\<open>save_graphml\<close> replaces every attribute value by \<^verbatim>\<open>stringifyValue(value)\<close> before the
  document is written, and \<^verbatim>\<open>load_graphml\<close> runs \<^verbatim>\<open>_convert_edge_attr_types\<close> over the
  strings read back. The document itself is taken to carry each string unchanged. The text that
  the runtime prints for a number and \<^verbatim>\<open>JSON.parse\<close> are parameters; \<^verbatim>\<open>JSON.stringify\<close> is
  written out over them.
\<close>

record codec_runtime =
  number_text :: "real \<Rightarrow> string"
  json_parse :: "string \<Rightarrow> jsval option"








function replace_all :: "string \<Rightarrow> string \<Rightarrow> string \<Rightarrow> string" where
  "replace_all pat rep [] = []"
| "replace_all pat rep (c # cs) =
     (if pat \<noteq> [] \<and> prefix pat (c # cs)
      then rep @ replace_all pat rep (drop (length pat) (c # cs))
      else c # replace_all pat rep cs)"
  by pat_completeness auto
termination
  by (relation "measure (\<lambda>(pat, rep, s). length s)") (auto simp: neq_Nil_conv)

definition py_literals :: "string \<Rightarrow> string" where
  "py_literals s =
     replace_all ''None'' ''null''
       (replace_all ''False'' ''false''
          (replace_all ''True'' ''true'' (replace_all [CHR 0x27] [CHR 0x22] s)))"

definition bracketed :: "string \<Rightarrow> bool" where
  "bracketed s \<longleftrightarrow>
     s \<noteq> [] \<and> ((hd s = CHR ''['' \<and> last s = CHR '']'') \<or> (hd s = CHR ''{'' \<and> last s = CHR ''}''))"

fun is_string :: "jsval \<Rightarrow> bool" where
  "is_string (Str s) = True"
| "is_string v = False"

definition parse_structured :: "codec_runtime \<Rightarrow> jsval \<Rightarrow> jsval" where
  "parse_structured rt v =
     (case v of
        Str s \<Rightarrow>
          if bracketed s
          then (case json_parse rt (py_literals s) of None \<Rightarrow> v | Some parsed \<Rightarrow> parsed)
          else v
      | _ \<Rightarrow> v)"

definition parse_wkt :: "geo_lib \<Rightarrow> jsval \<Rightarrow> jsval" where
  "parse_wkt lib v =
     (case v of
        Str s \<Rightarrow>
          if truthy v
          then (case wkt_parse lib s of
                  None \<Rightarrow> v
                | Some geojson \<Rightarrow> if truthy geojson then geojson else v)
          else v
      | _ \<Rightarrow> v)"

definition load_geometry :: "codec_runtime \<Rightarrow> geo_lib \<Rightarrow> jsval \<Rightarrow> jsval" where
  "load_geometry rt lib stored = parse_wkt lib (parse_structured rt stored)"








definition literal_free :: "string \<Rightarrow> bool" where
  "literal_free s \<longleftrightarrow>
     CHR 0x27 \<notin> set s \<and> CHR ''T'' \<notin> set s \<and> CHR ''F'' \<notin> set s \<and> CHR ''N'' \<notin> set s"

(*VERIFICATION*)

section \<open>Verification: key order and neighbours\<close>

lemma set_neighbors:
  "set (uniq_first (inNeighbors G n @ outNeighbors G n)) = neighbor_set G n"
  by (auto simp: inNeighbors_def outNeighbors_def in_edges_def out_edges_def neighbor_set_def)

lemma self_loop_iff: "n \<in> neighbor_set G n \<longleftrightarrow> has_self_loop G n"
  by (auto simp: neighbor_set_def has_self_loop_def)

section \<open>Verification: the endpoint predicate\<close>

text \<open>
  Claim C5. The endpoint test of the simplifier is the predicate of the specification:
  a node with a self-loop is an endpoint; so is a node with in-degree 0 or out-degree 0;
  any other node is interstitial exactly when it has two distinct neighbours other than
  itself and total degree 2 or 4 (parallel edges counted), and an endpoint otherwise.
\<close>

theorem is_endpoint_spec: "is_endpoint G n = spec_endpoint G n"
proof -
  let ?nb = "uniq_first (inNeighbors G n @ outNeighbors G n)"
  have len: "length ?nb = card (neighbor_set G n)"
    using distinct_card [of ?nb] by (simp only: set_neighbors distinct_uniq_first)
  have mem: "n \<in> set ?nb \<longleftrightarrow> has_self_loop G n"
    by (simp only: set_neighbors self_loop_iff)
  show ?thesis
  proof (cases "has_self_loop G n")
    case True
    then show ?thesis using mem by (simp add: is_endpoint_def spec_endpoint_def Let_def)
  next
    case False
    then have "n \<notin> neighbor_set G n" by (simp add: self_loop_iff)
    then have "neighbor_set G n - {n} = neighbor_set G n" by auto
    then show ?thesis using False mem len
      by (simp add: is_endpoint_def spec_endpoint_def spec_interstitial_def Let_def)
  qed
qed

section \<open>Verification: streets per node\<close>














section \<open>Verification: bounding-box truncation\<close>

lemma gnodes_drop_if_present:
  "gnodes (drop_if_present n G) = filter (\<lambda>nd. nid nd \<noteq> n) (gnodes G)"
proof (cases "hasNode G n")
  case True
  then show ?thesis by (simp add: drop_if_present_def dropNode_def)
next
  case False
  then have "\<forall>nd \<in> set (gnodes G). nid nd \<noteq> n" by (auto simp: hasNode_def)
  then have "filter (\<lambda>nd. nid nd \<noteq> n) (gnodes G) = gnodes G" by (simp add: filter_id_conv)
  with False show ?thesis by (simp add: drop_if_present_def)
qed

lemma gnodes_fold_drop:
  "gnodes (fold drop_if_present ns G) = filter (\<lambda>nd. nid nd \<notin> set ns) (gnodes G)"
proof (induction ns arbitrary: G)
  case Nil
  then show ?case by simp
next
  case (Cons n ns)
  have "gnodes (fold drop_if_present (n # ns) G)
          = filter (\<lambda>nd. nid nd \<notin> set ns) (filter (\<lambda>nd. nid nd \<noteq> n) (gnodes G))"
    by (simp add: Cons.IH gnodes_drop_if_present)
  also have "\<dots> = filter (\<lambda>nd. nid nd \<notin> set (n # ns)) (gnodes G)"
    by (auto intro: filter_cong)
  finally show ?case .
qed



text \<open>Without \<^verbatim>\<open>truncate_by_edge\<close> the truncator cannot fail.\<close>

lemma truncate_plain:
  "truncate_graph_bbox lib G bb False retain_all =
     Inr (let G' = fold drop_if_present (map nid (filter (outside bb) (gnodes G))) G
          in if retain_all then G' else get_largest_component G')"
  by (simp add: truncate_graph_bbox_def Let_def)



lemma retained_iff:
  assumes "distinct (map nid (gnodes G))" "nd \<in> set (gnodes G)"
  shows "nd \<in> set (gnodes (fold drop_if_present (map nid (filter (outside bb) (gnodes G))) G))
           \<longleftrightarrow> \<not> outside bb nd"
proof -
  have "nid nd \<in> nid ` {m \<in> set (gnodes G). outside bb m} \<longleftrightarrow> outside bb nd"
  proof
    assume "nid nd \<in> nid ` {m \<in> set (gnodes G). outside bb m}"
    then obtain m where m: "m \<in> set (gnodes G)" "outside bb m" "nid m = nid nd" by auto
    from assms(1) have "inj_on nid (set (gnodes G))" by (simp add: distinct_map)
    with m assms(2) have "m = nd" by (auto dest: inj_onD)
    with m show "outside bb nd" by simp
  next
    assume "outside bb nd"
    with assms(2) show "nid nd \<in> nid ` {m \<in> set (gnodes G). outside bb m}" by auto
  qed
  then show ?thesis using assms(2) by (auto simp: gnodes_fold_drop)
qed





text \<open>
  Claim C10, as the code has it. With \<^verbatim>\<open>truncate_by_edge = false\<close> and
  \<^verbatim>\<open>retain_all = true\<close>, a node that lacks a coordinate is kept exactly when the
  coordinate it does have (if any) is within the bounds: the comparisons with the missing
  coordinate are false, the comparisons with the present one still decide. In particular
  a node with neither \<open>x\<close> nor \<open>y\<close> is always kept.
\<close>

theorem truncate_bbox_missing_coordinate:
  assumes "distinct (map nid (gnodes G))" and "nd \<in> set (gnodes G)"
    and "nx nd = None \<or> ny nd = None"
  shows "\<exists>H. truncate_graph_bbox lib G (north, south, east, west) False True = Inr H \<and>
           (nd \<in> set (gnodes H) \<longleftrightarrow>
              \<not> (js_gt (ny nd) north \<or> js_lt (ny nd) south \<or>
                 js_gt (nx nd) east \<or> js_lt (nx nd) west)) \<and>
           (nx nd = None \<and> ny nd = None \<longrightarrow> nd \<in> set (gnodes H))"
proof -
  let ?bb = "(north, south, east, west)"
  let ?H = "fold drop_if_present (map nid (filter (outside ?bb) (gnodes G))) G"
  have t: "truncate_graph_bbox lib G ?bb False True = Inr ?H"
    by (simp add: truncate_plain)
  have r: "nd \<in> set (gnodes ?H) \<longleftrightarrow> \<not> outside ?bb nd"
    using assms(1,2) by (rule retained_iff)
  have o: "outside ?bb nd \<longleftrightarrow>
             js_gt (ny nd) north \<or> js_lt (ny nd) south \<or> js_gt (nx nd) east \<or> js_lt (nx nd) west"
    by (simp add: outside_def Let_def)
  have "nx nd = None \<and> ny nd = None \<longrightarrow> \<not> outside ?bb nd"
    by (simp add: outside_def js_gt_def js_lt_def)
  with t r o show ?thesis by blast
qed

theorem truncate_bbox_missing_coordinate_witness:
  "distinct (map nid (gnodes stray_nodes)) \<and>
   \<lparr>nid = ''b'', nx = None, ny = None, nattrs = []\<rparr> \<in> set (gnodes stray_nodes) \<and>
   (\<exists>H. truncate_graph_bbox no_geo_lib stray_nodes (1, 0, 1, 0) False True = Inr H \<and>
        \<lparr>nid = ''b'', nx = None, ny = None, nattrs = []\<rparr> \<in> set (gnodes H))"
proof -
  let ?b = "\<lparr>nid = ''b'', nx = None, ny = None, nattrs = []\<rparr>"
  have d: "distinct (map nid (gnodes stray_nodes))" by (simp add: stray_nodes_def)
  have m: "?b \<in> set (gnodes stray_nodes)" by (simp add: stray_nodes_def)
  have c: "nx ?b = None \<or> ny ?b = None" by simp
  from truncate_bbox_missing_coordinate [OF d m c, of no_geo_lib 1 0 1 0]
  have "\<exists>H. truncate_graph_bbox no_geo_lib stray_nodes (1, 0, 1, 0) False True = Inr H \<and>
          ?b \<in> set (gnodes H)"
    by auto
  with d m show ?thesis by blast
qed

text \<open>
  The claim as written (a node whose \<open>x\<close> or \<open>y\<close> is missing is never removed) fails at
  a node without \<open>x\<close> whose \<open>y\<close> lies north of the box: it is removed.
\<close>

theorem truncate_bbox_half_located_counterexample:
  "nx (hd (gnodes half_located)) = None \<and>
   truncate_graph_bbox no_geo_lib half_located unit_bbox False True =
     Inr \<lparr>gattrs = [], gnodes = [], gedges = [], gcount = 0\<rparr>"
  by (simp add: truncate_plain half_located_def unit_bbox_def outside_def
      js_gt_def js_lt_def drop_if_present_def dropNode_def hasNode_def)

section \<open>Verification: oneway reversal in the builder\<close>

lemma get_set_attr [simp]: "get_attr (set_attr a k v) k = v"
  by (induction a) (auto simp: get_attr_def)

lemma get_set_attr_other [simp]: "k' \<noteq> k \<Longrightarrow> get_attr (set_attr a k v) k' = get_attr a k'"
  by (induction a) (auto simp: get_attr_def)

lemma addEdge_ok:
  assumes "hasNode G u" "hasNode G v"
  shows "\<exists>G'. addEdge G u v a = Inr G' \<and> gnodes G' = gnodes G \<and> gattrs G' = gattrs G \<and>
           edge_summary G' = edge_summary G @ [(u, v, get_attr a ''reversed'')]"
  using assms by (simp add: addEdge_def edge_summary_def)

lemma hasNode_cong: "gnodes G' = gnodes G \<Longrightarrow> hasNode G' n = hasNode G n"
  by (simp add: hasNode_def)

lemma add_edges_ok:
  assumes "\<forall>(u, v) \<in> set es. hasNode G u \<and> hasNode G v"
  shows "\<exists>G'. add_edges es a G = Inr G' \<and> gnodes G' = gnodes G \<and> gattrs G' = gattrs G \<and>
           edge_summary G' = edge_summary G @ map (\<lambda>(u, v). (u, v, get_attr a ''reversed'')) es"
  using assms
proof (induction es arbitrary: G)
  case Nil
  then show ?case by simp
next
  case (Cons uv es)
  obtain u v where uv: "uv = (u, v)" by (cases uv)
  with Cons.prems have "hasNode G u" "hasNode G v" by auto
  from addEdge_ok [OF this, of a] obtain G1 where
    G1: "addEdge G u v a = Inr G1" "gnodes G1 = gnodes G" "gattrs G1 = gattrs G"
      "edge_summary G1 = edge_summary G @ [(u, v, get_attr a ''reversed'')]"
    by blast
  have "\<forall>(u, v) \<in> set es. hasNode G1 u \<and> hasNode G1 v"
    using Cons.prems G1(2) by (auto simp: hasNode_def)
  from Cons.IH [OF this] obtain G' where
    G': "add_edges es a G1 = Inr G'" "gnodes G' = gnodes G1" "gattrs G' = gattrs G1"
      "edge_summary G' = edge_summary G1 @ map (\<lambda>(u, v). (u, v, get_attr a ''reversed'')) es"
    by blast
  show ?case using uv G1 G' by simp
qed

lemma node_pairs_set: "(u, v) \<in> set (node_pairs ns) \<Longrightarrow> u \<in> set ns \<and> v \<in> set ns"
  unfolding node_pairs_def by (cases ns) (auto dest: set_zip_leftD set_zip_rightD)

lemma add_path_reversed:
  assumes ow: "is_path_one_way st (pattrs p) bidirectional oneway_values"
    and rv: "is_path_reversed (pattrs p) reversed_values"
    and nodes: "\<forall>n \<in> set (pnodes p). hasNode G (show_int n)"
  shows "\<exists>G'. add_path st bidirectional p G = Inr G' \<and> gnodes G' = gnodes G \<and>
           edge_summary G' =
             edge_summary G @
             map (\<lambda>(u, v). (show_int u, show_int v, Bool False)) (node_pairs (rev (pnodes p)))"
proof -
  let ?a1 = "if \<not> all_oneway st then set_attr (pattrs p) ''oneway'' (Bool True) else pattrs p"
  let ?a2 = "set_attr ?a1 ''reversed'' (Bool False)"
  let ?es = "map (\<lambda>(u, v). (show_int u, show_int v)) (node_pairs (rev (pnodes p)))"
  have "\<forall>(u, v) \<in> set ?es. hasNode G u \<and> hasNode G v"
    using nodes by (auto dest!: node_pairs_set)
  from add_edges_ok [OF this, of ?a2] obtain G' where
    G': "add_edges ?es ?a2 G = Inr G'" "gnodes G' = gnodes G"
      "edge_summary G' = edge_summary G @ map (\<lambda>(u, v). (u, v, get_attr ?a2 ''reversed'')) ?es"
    by blast
  have "add_path st bidirectional p G = Inr G'"
    using ow rv G'(1) by (simp add: add_path_def Let_def)
  moreover have "map (\<lambda>(u, v). (u, v, get_attr ?a2 ''reversed'')) ?es
                   = map (\<lambda>(u, v). (show_int u, show_int v, Bool False)) (node_pairs (rev (pnodes p)))"
    by (simp add: case_prod_beta)
  ultimately show ?thesis using G' by auto
qed

lemma backward_way_tags:
  "is_path_reversed (pattrs backward_way) reversed_values"
  "tag_in (pattrs backward_way) ''oneway'' oneway_values"
  by (simp_all add: is_path_reversed_def tag_in_def backward_way_def reversed_values_def
      oneway_values_def get_attr_def)

lemma backward_way_nodes: "\<forall>n \<in> set (pnodes backward_way). hasNode three_nodes (show_int n)"
  by code_simp

lemma backward_way_pairs:
  "map (\<lambda>(u, v). (show_int u, show_int v, Bool False)) (node_pairs (rev (pnodes backward_way)))
     = [(''3'', ''2'', Bool False), (''2'', ''1'', Bool False)]"
  by code_simp

text \<open>
  Claim C4. A path that is determined oneway and whose \<^verbatim>\<open>oneway\<close> tag is one of
  \<open>-1\<close>, \<open>reverse\<close>, \<open>T\<close> is added with its node sequence reversed: the edges
  emitted are the consecutive pairs of the reversed sequence, each with
  \<^verbatim>\<open>reversed = false\<close>, and no edge in the other direction. In particular the way
  \<open>[1, 2, 3]\<close> tagged \<open>highway = residential\<close>, \<open>oneway = -1\<close>, built as a oneway
  path, yields exactly the edges \<open>3 \<rightarrow> 2\<close> and \<open>2 \<rightarrow> 1\<close>, both with
  \<^verbatim>\<open>reversed = false\<close>.
\<close>

theorem oneway_reversal:
  "(is_path_one_way st (pattrs p) bidirectional oneway_values \<and>
    is_path_reversed (pattrs p) reversed_values \<and>
    (\<forall>n \<in> set (pnodes p). hasNode G (show_int n)) \<longrightarrow>
      (\<exists>G'. add_path st bidirectional p G = Inr G' \<and>
            edge_summary G' =
              edge_summary G @
              map (\<lambda>(u, v). (show_int u, show_int v, Bool False)) (node_pairs (rev (pnodes p)))))
   \<and>
   (all_oneway st' \<or> \<not> bidirectional' \<longrightarrow>
      (\<exists>G'. add_paths st' bidirectional' [backward_way] three_nodes = Inr G' \<and>
            edge_summary G' = [(''3'', ''2'', Bool False), (''2'', ''1'', Bool False)]))"
proof (intro conjI impI)
  assume "is_path_one_way st (pattrs p) bidirectional oneway_values \<and>
    is_path_reversed (pattrs p) reversed_values \<and>
    (\<forall>n \<in> set (pnodes p). hasNode G (show_int n))"
  then show "\<exists>G'. add_path st bidirectional p G = Inr G' \<and>
            edge_summary G' =
              edge_summary G @
              map (\<lambda>(u, v). (show_int u, show_int v, Bool False)) (node_pairs (rev (pnodes p)))"
    using add_path_reversed [of st p bidirectional G] by blast
next
  assume a: "all_oneway st' \<or> \<not> bidirectional'"
  then have ow: "is_path_one_way st' (pattrs backward_way) bidirectional' oneway_values"
    using backward_way_tags(2) by (auto simp: is_path_one_way_def)
  from add_path_reversed [OF ow backward_way_tags(1) backward_way_nodes]
  obtain G' where G': "add_path st' bidirectional' backward_way three_nodes = Inr G'"
    "edge_summary G' = edge_summary three_nodes @
       map (\<lambda>(u, v). (show_int u, show_int v, Bool False)) (node_pairs (rev (pnodes backward_way)))"
    by blast
  have "edge_summary three_nodes = []" by (simp add: edge_summary_def three_nodes_def)
  with G' backward_way_pairs
  show "\<exists>G'. add_paths st' bidirectional' [backward_way] three_nodes = Inr G' \<and>
            edge_summary G' = [(''3'', ''2'', Bool False), (''2'', ''1'', Bool False)]"
    by simp
qed

theorem oneway_reversal_witness:
  "is_path_one_way \<lparr>all_oneway = False\<rparr> (pattrs backward_way) False oneway_values \<and>
   is_path_reversed (pattrs backward_way) reversed_values \<and>
   list_all (\<lambda>n. hasNode three_nodes (show_int n)) (pnodes backward_way) \<and>
   (\<exists>G'. add_paths \<lparr>all_oneway = False\<rparr> False [backward_way] three_nodes = Inr G' \<and>
         edge_summary G' = [(''3'', ''2'', Bool False), (''2'', ''1'', Bool False)])"
proof -
  have ow: "is_path_one_way \<lparr>all_oneway = False\<rparr> (pattrs backward_way) False oneway_values"
    using backward_way_tags(2) by (simp add: is_path_one_way_def)
  have n: "list_all (\<lambda>n. hasNode three_nodes (show_int n)) (pnodes backward_way)"
    using backward_way_nodes by (simp add: list_all_iff)
  have s: "all_oneway \<lparr>all_oneway = False\<rparr> \<or> \<not> False" by simp
  from oneway_reversal [of _ _ _ _ "\<lparr>all_oneway = False\<rparr>" False] s
  have "\<exists>G'. add_paths \<lparr>all_oneway = False\<rparr> False [backward_way] three_nodes = Inr G' \<and>
         edge_summary G' = [(''3'', ''2'', Bool False), (''2'', ''1'', Bool False)]"
    by blast
  with ow backward_way_tags(1) n show ?thesis by blast
qed

section \<open>Verification: the simplifier\<close>

lemma hasNode_find: "hasNode G n \<Longrightarrow> \<exists>nd. find_node G n = Some nd \<and> nd \<in> set (gnodes G) \<and> nid nd = n"
  unfolding hasNode_def find_node_def
  by (cases "find (\<lambda>nd. nid nd = n) (gnodes G)") (auto simp: find_None_iff find_Some_iff)

lemma wf_out_neighbor: "edges_in_graph G \<Longrightarrow> m \<in> set (outNeighbors G n) \<Longrightarrow> hasNode G m"
  by (auto simp: edges_in_graph_def outNeighbors_def out_edges_def hasNode_def list_all_iff)

lemma out_neighbor_edge: "m \<in> set (outNeighbors G n) \<Longrightarrow> edges_between G n m \<noteq> []"
  by (auto simp: outNeighbors_def out_edges_def edges_between_def filter_empty_conv)

lemma build_path_loop_props:
  assumes "build_path_loop k G endpoint endpoints path successor = Some p"
    and "edges_in_graph G" and "hasNode G endpoint" and "\<forall>n \<in> set path. hasNode G n"
  shows "(\<exists>rest. p = path @ rest) \<and> (\<forall>n \<in> set p. hasNode G n)"
  using assms
proof (induction k arbitrary: path successor)
  case 0
  then show ?case by simp
next
  case (Suc k)
  let ?succs = "outNeighbors G successor"
  let ?valid = "filter (\<lambda>n. n \<notin> set path) ?succs"
  show ?case
  proof (cases "successor \<in> set endpoints")
    case True
    with Suc.prems show ?thesis by (simp add: Let_def)
  next
    case False
    show ?thesis
    proof (cases ?valid)
      case Nil
      with False Suc.prems show ?thesis by (auto simp: Let_def split: if_splits)
    next
      case (Cons v vs)
      show ?thesis
      proof (cases vs)
        case Nil
        with Cons have one: "?valid = [v]" by simp
        then have "v \<in> set ?succs" by (metis filter_is_subset list.set_intros(1) subsetD)
        with Suc.prems(2) have hv: "hasNode G v" by (rule wf_out_neighbor)
        from one False Suc.prems(1)
        have r: "build_path_loop k G endpoint endpoints (path @ [v]) v = Some p"
          by (simp add: Let_def)
        have "\<forall>n \<in> set (path @ [v]). hasNode G n" using hv Suc.prems(4) by auto
        from Suc.IH [OF r Suc.prems(2,3) this] show ?thesis by auto
      next
        case (Cons w ws)
        with \<open>?valid = v # vs\<close> False Suc.prems show ?thesis by (auto simp: Let_def)
      qed
    qed
  qed
qed

lemma build_path_props:
  assumes "build_path G endpoint s endpoints = Some p"
    and "edges_in_graph G" and "hasNode G endpoint" and "s \<in> set (outNeighbors G endpoint)"
  shows "(\<exists>rest. p = endpoint # s # rest) \<and> (\<forall>n \<in> set p. hasNode G n)"
proof -
  have "hasNode G s" using assms(2,4) by (rule wf_out_neighbor)
  then have "\<forall>n \<in> set [endpoint, s]. hasNode G n" using assms(3) by simp
  from build_path_loop_props [OF assms(1)[unfolded build_path_def] assms(2,3) this]
  show ?thesis by auto
qed

lemma collect_ok:
  assumes "\<forall>(u, v) \<in> set ps. hasNode G u \<and> hasNode G v"
  shows "\<exists>c'. collect G tm i ps c = Inr c' \<and> length (c_coords c) \<le> length (c_coords c')"
  using assms
proof (induction ps arbitrary: i c)
  case Nil
  then show ?case by simp
next
  case (Cons uv ps)
  obtain u v where uv: "uv = (u, v)" by (cases uv)
  with Cons.prems have h: "hasNode G u" "hasNode G v" by auto
  from hasNode_find [OF h(2)] obtain vn where vn: "find_node G v = Some vn" by blast
  have rest: "\<forall>(u, v) \<in> set ps. hasNode G u \<and> hasNode G v" using Cons.prems by simp
  show ?case
  proof (cases "edges_between G u v")
    case Nil
    with Cons.IH [OF rest, of "Suc i" c] uv h show ?thesis by simp
  next
    case (Cons e es)
    let ?c1 = "\<lparr>c_attrs = foldl push_attr (c_attrs c) (eattrs e),
                 c_merged = (if tm then c_merged c @ [Arr [Str u, Str v]] else c_merged c),
                 c_coords = c_coords c @ [node_position vn],
                 c_remove = (if i > 0 then set_add (c_remove c) u else c_remove c)\<rparr>"
    from Cons.IH [OF rest, of "Suc i" ?c1] obtain c' where
      "collect G tm (Suc i) ps ?c1 = Inr c'" "length (c_coords ?c1) \<le> length (c_coords c')"
      by blast
    with Cons uv h vn show ?thesis by auto
  qed
qed

lemma collect_first:
  assumes "\<forall>(u, v) \<in> set ((u0, v0) # ps). hasNode G u \<and> hasNode G v"
    and "edges_between G u0 v0 \<noteq> []"
  shows "\<exists>c'. collect G tm i ((u0, v0) # ps) c = Inr c' \<and> length (c_coords c) < length (c_coords c')"
proof -
  from assms(1) have h: "hasNode G u0" "hasNode G v0" by auto
  from hasNode_find [OF h(2)] obtain vn where vn: "find_node G v0 = Some vn" by blast
  from assms(2) obtain e es where e: "edges_between G u0 v0 = e # es" by (cases "edges_between G u0 v0") auto
  let ?c1 = "\<lparr>c_attrs = foldl push_attr (c_attrs c) (eattrs e),
               c_merged = (if tm then c_merged c @ [Arr [Str u0, Str v0]] else c_merged c),
               c_coords = c_coords c @ [node_position vn],
               c_remove = (if i > 0 then set_add (c_remove c) u0 else c_remove c)\<rparr>"
  have "\<forall>(u, v) \<in> set ps. hasNode G u \<and> hasNode G v" using assms(1) by simp
  from collect_ok [OF this, of tm "Suc i" ?c1] obtain c' where
    "collect G tm (Suc i) ps ?c1 = Inr c'" "length (c_coords ?c1) \<le> length (c_coords c')"
    by blast
  with e h vn show ?thesis by auto
qed


lemma zip_tl_nodes: "(u, v) \<in> set (zip p (tl p)) \<Longrightarrow> u \<in> set p \<and> v \<in> set p"
  by (cases p) (auto dest: set_zip_leftD set_zip_rightD)

lemma process_path_ok:
  assumes p: "p = endpoint # s # rest" and nodes: "\<forall>n \<in> set p. hasNode G n"
    and edge: "edges_between G endpoint s \<noteq> []" and ok: "new_edges_ok G (snd st)"
  shows "\<exists>st'. process_path rt G tm p st = Inr st' \<and> new_edges_ok G (snd st')"
proof -
  obtain rm ea where st: "st = (rm, ea)" by (cases st)
  have "hasNode G (hd p)" using p nodes by simp
  from hasNode_find [OF this] obtain sn where sn: "find_node G (hd p) = Some sn" by blast
  let ?c0 = "\<lparr>c_attrs = [], c_merged = [], c_coords = [node_position sn], c_remove = rm\<rparr>"
  have z: "zip p (tl p) = (endpoint, s) # zip (s # rest) rest" using p by simp
  have "\<forall>(u, v) \<in> set ((endpoint, s) # zip (s # rest) rest). hasNode G u \<and> hasNode G v"
    using nodes zip_tl_nodes [of _ _ p] unfolding z [symmetric] by blast
  from collect_first [OF this edge, of tm 0 ?c0] obtain c where
    c: "collect G tm 0 (zip p (tl p)) ?c0 = Inr c" "length (c_coords ?c0) < length (c_coords c)"
    unfolding z by blast
  then have "\<not> length (c_coords c) < 2" by simp
  then obtain g where g: "lineString (c_coords c) = Inr g" by (simp add: lineString_def)
  have "hasNode G (last p)" using p nodes by (metis last_in_set list.distinct(1))
  with \<open>hasNode G (hd p)\<close> ok st sn c(1) g show ?thesis
    by (simp add: process_path_def Let_def new_edges_ok_def)
qed

lemma visit_successor_ok:
  assumes "edges_in_graph G" "hasNode G endpoint" "s \<in> set (outNeighbors G endpoint)"
    and "acc = Inr st" "new_edges_ok G (snd st)"
  shows "\<exists>st'. visit_successor rt G tm endpoints endpoint s acc = Inr st' \<and> new_edges_ok G (snd st')"
proof (cases "s \<notin> set endpoints")
  case False
  with assms(4,5) show ?thesis by (simp add: visit_successor_def)
next
  case True
  show ?thesis
  proof (cases "build_path G endpoint s endpoints")
    case None
    with True assms(4,5) show ?thesis by (simp add: visit_successor_def)
  next
    case (Some p)
    from build_path_props [OF Some assms(1,2,3)] obtain rest where
      p: "p = endpoint # s # rest" and n: "\<forall>n \<in> set p. hasNode G n" by blast
    from process_path_ok [OF p n out_neighbor_edge [OF assms(3)] assms(5)]
    show ?thesis using True Some assms(4) by (simp add: visit_successor_def)
  qed
qed

lemma visit_successors_ok:
  assumes "edges_in_graph G" "hasNode G endpoint" "set ss \<subseteq> set (outNeighbors G endpoint)"
    and "acc = Inr st" "new_edges_ok G (snd st)"
  shows "\<exists>st'. fold (visit_successor rt G tm endpoints endpoint) ss acc = Inr st' \<and>
           new_edges_ok G (snd st')"
  using assms(3,4,5)
proof (induction ss arbitrary: acc st)
  case Nil
  then show ?case by simp
next
  case (Cons s ss)
  then have "s \<in> set (outNeighbors G endpoint)" by simp
  from visit_successor_ok [OF assms(1,2) this Cons.prems(2,3)] obtain st1 where
    st1: "visit_successor rt G tm endpoints endpoint s acc = Inr st1" "new_edges_ok G (snd st1)"
    by blast
  have "set ss \<subseteq> set (outNeighbors G endpoint)" using Cons.prems(1) by simp
  from Cons.IH [OF this st1] show ?case by simp
qed

lemma visit_endpoints_ok:
  assumes "edges_in_graph G" "\<forall>e \<in> set es. hasNode G e" "acc = Inr st" "new_edges_ok G (snd st)"
  shows "\<exists>st'. fold (visit_endpoint rt G tm endpoints) es acc = Inr st' \<and> new_edges_ok G (snd st')"
  using assms(2,3,4)
proof (induction es arbitrary: acc st)
  case Nil
  then show ?case by simp
next
  case (Cons e es)
  then have "hasNode G e" by simp
  from visit_successors_ok [OF assms(1) this subset_refl Cons.prems(2,3)] obtain st1 where
    st1: "visit_endpoint rt G tm endpoints e acc = Inr st1" "new_edges_ok G (snd st1)"
    unfolding visit_endpoint_def by blast
  have "\<forall>e \<in> set es. hasNode G e" using Cons.prems(1) by simp
  from Cons.IH [OF this st1] show ?case by simp
qed

lemma add_new_edges_ok:
  assumes "new_edges_ok G es"
  shows "\<exists>G'. add_new_edges es G = (G', None) \<and> gnodes G' = gnodes G \<and> gattrs G' = gattrs G"
  using assms
proof (induction es arbitrary: G)
  case Nil
  then show ?case by simp
next
  case (Cons e es)
  obtain u v a where e: "e = (u, v, a)" by (cases e)
  with Cons.prems have h: "hasNode G u" "hasNode G v" and r: "new_edges_ok G es"
    by (simp_all add: new_edges_ok_def)
  let ?G1 = "G\<lparr>gedges := gedges G @
                    [\<lparr>ekey = ''geid_'' @ show_nat (gcount G), esrc = u, etgt = v, eattrs = a\<rparr>],
                  gcount := Suc (gcount G)\<rparr>"
  have a: "addEdge G u v a = Inr ?G1" using h by (simp add: addEdge_def)
  have "new_edges_ok ?G1 es" using r by (simp add: new_edges_ok_def hasNode_def)
  from Cons.IH [OF this] a e show ?case by simp
qed


lemma setNodeAttribute_frame [simp]:
  "map nid (gnodes (setNodeAttribute n k v G)) = map nid (gnodes G)"
  "gedges (setNodeAttribute n k v G) = gedges G"
  "gattrs (setNodeAttribute n k v G) = gattrs G"
  by (simp_all add: setNodeAttribute_def comp_def if_distrib [of nid] cong: if_cong)







lemma simplify_proceeds:
  assumes "edges_in_graph G" "\<not> truthy (get_attr (gattrs G) ''simplified'')"
  shows "\<exists>G4. simplify_graph rt G rr tm = (set_street_counts G4, None) \<and>
              get_attr (gattrs G4) ''simplified'' = Bool True"
proof -
  let ?eps = "filter (is_endpoint G) (map nid (gnodes G))"
  have n: "\<forall>e \<in> set ?eps. hasNode G e" by (auto simp: hasNode_def)
  have "new_edges_ok G (snd ([], []))" by (simp add: new_edges_ok_def)
  from visit_endpoints_ok [OF assms(1) n refl this] obtain rm ea where
    f: "fold (visit_endpoint rt G tm ?eps) ?eps (Inr ([], [])) = Inr (rm, ea)"
    and ok: "new_edges_ok G ea" by fastforce
  from add_new_edges_ok [OF ok] obtain G1 where G1: "add_new_edges ea G = (G1, None)" by blast
  let ?G2 = "fold drop_if_present rm G1"
  let ?G3 = "if rr then fold drop_ring (map nid (gnodes ?G2)) ?G2 else ?G2"
  let ?G4 = "?G3\<lparr>gattrs := set_attr (gattrs ?G3) ''simplified'' (Bool True)\<rparr>"
  have "simplify_graph rt G rr tm = (set_street_counts ?G4, None)"
    using assms(2) f G1 by (simp add: simplify_graph_def Let_def)
  moreover have "get_attr (gattrs ?G4) ''simplified'' = Bool True" by simp
  ultimately show ?thesis by blast
qed



text \<open>
  The seed scenario of the simplifier, evaluated: the chain collapses to the nodes 1 and
  4, joined by one new edge each way.
\<close>

lemma simplify_chain4:
  "map (\<lambda>nd. (nid nd, nattrs nd)) (gnodes (fst (simplify_graph plain_runtime chain4 True True)))
     = [(''1'', [(''street_count'', Num 2)]), (''4'', [(''street_count'', Num 2)])]"
  "map (\<lambda>e. (esrc e, etgt e, get_attr (eattrs e) ''length''))
       (gedges (fst (simplify_graph plain_runtime chain4 True True)))
     = [(''1'', ''4'', Num 30), (''4'', ''1'', Num 30)]"
  by code_simp+

section \<open>Verification: the consolidator\<close>

lemma uf_find_new: "parent x = None \<Longrightarrow> uf_find parent x = Some (x, parent(x \<mapsto> x))"
  by (subst uf_find.simps) simp

lemma uf_find_root: "parent x = Some x \<Longrightarrow> uf_find parent x = Some (x, parent)"
  by (subst uf_find.simps) simp

lemma uf_find_step:
  "parent x = Some y \<Longrightarrow> y \<noteq> x \<Longrightarrow>
   uf_find parent x = Option.bind (uf_find parent y) (\<lambda>(r, p2). Some (r, p2(x \<mapsto> r)))"
  by (subst uf_find.simps) simp

lemma uf_rel_upd_self: "uf_rel (p(x \<mapsto> x)) \<subseteq> uf_rel p"
  by (auto simp: uf_rel_def split: if_splits)

lemma uf_rel_upd: "uf_rel (p(x \<mapsto> r)) \<subseteq> insert (r, x) (uf_rel p)"
  by (auto simp: uf_rel_def split: if_splits)

lemma uf_find_walk:
  assumes "wf (uf_rel p)" and "refl L" and "trans L" and "\<forall>x y. p x = Some y \<longrightarrow> (x, y) \<in> L"
  shows "\<exists>r p'. uf_find p x = Some (r, p') \<and> p' r = Some r \<and> (x, r) \<in> L \<and>
           (r, x) \<in> (uf_rel p)\<^sup>* \<and> uf_rel p' \<subseteq> (uf_rel p)\<^sup>+ \<and>
           (\<forall>u v. p' u = Some v \<longrightarrow> (u, v) \<in> L) \<and>
           (\<forall>z. p z = Some z \<longrightarrow> p' z = Some z)"
  using assms(1)
proof (induction x rule: wf_induct_rule)
  case (less x)
  show ?case
  proof (cases "p x")
    case None
    have "uf_rel (p(x \<mapsto> x)) \<subseteq> (uf_rel p)\<^sup>+" using uf_rel_upd_self [of p x] by auto
    moreover have "(x, x) \<in> L" using assms(2) by (simp add: refl_onD)
    ultimately show ?thesis using None assms(4) by (auto simp: uf_find_new)
  next
    case (Some y)
    show ?thesis
    proof (cases "y = x")
      case True
      have "(x, x) \<in> L" using assms(2) by (simp add: refl_onD)
      then show ?thesis using Some True assms(4) by (auto simp: uf_find_root)
    next
      case False
      with Some have yx: "(y, x) \<in> uf_rel p" by (simp add: uf_rel_def)
      from less.IH [OF yx] obtain r p2 where
        f: "uf_find p y = Some (r, p2)" and root: "p2 r = Some r" and yr: "(y, r) \<in> L"
        and reach: "(r, y) \<in> (uf_rel p)\<^sup>*" and sub: "uf_rel p2 \<subseteq> (uf_rel p)\<^sup>+"
        and snd2: "\<forall>u v. p2 u = Some v \<longrightarrow> (u, v) \<in> L"
        and keep: "\<forall>z. p z = Some z \<longrightarrow> p2 z = Some z"
        by blast
      have res: "uf_find p x = Some (r, p2(x \<mapsto> r))"
        using Some False f by (simp add: uf_find_step)
      have xr: "(x, r) \<in> L"
        using assms(3,4) Some yr by (meson transD)
      have rx: "(r, x) \<in> (uf_rel p)\<^sup>+" using reach yx by (rule rtrancl_into_trancl1)
      have sub': "uf_rel (p2(x \<mapsto> r)) \<subseteq> (uf_rel p)\<^sup>+"
        using uf_rel_upd [of p2 x r] sub rx by auto
      have keep': "\<forall>z. p z = Some z \<longrightarrow> (p2(x \<mapsto> r)) z = Some z"
        using keep Some False by auto
      have "(p2(x \<mapsto> r)) r = Some r" using root by simp
      moreover have "\<forall>u v. (p2(x \<mapsto> r)) u = Some v \<longrightarrow> (u, v) \<in> L"
        using snd2 xr by auto
      moreover have "(r, x) \<in> (uf_rel p)\<^sup>*" using rx by simp
      ultimately show ?thesis using res xr sub' keep' by blast
    qed
  qed
qed

lemma uf_find_total:
  assumes "uf_inv L p" and "refl L" and "trans L"
  shows "\<exists>r p'. uf_find p x = Some (r, p') \<and> uf_inv L p' \<and> p' r = Some r \<and> (x, r) \<in> L \<and>
           (\<forall>z. p z = Some z \<longrightarrow> p' z = Some z)"
proof -
  from assms(1) have w: "wf (uf_rel p)" and s: "\<forall>x y. p x = Some y \<longrightarrow> (x, y) \<in> L"
    by (simp_all add: uf_inv_def)
  from uf_find_walk [OF w assms(2,3) s, of x] obtain r p' where
    r: "uf_find p x = Some (r, p')" "p' r = Some r" "(x, r) \<in> L"
      "uf_rel p' \<subseteq> (uf_rel p)\<^sup>+" "\<forall>u v. p' u = Some v \<longrightarrow> (u, v) \<in> L"
      "\<forall>z. p z = Some z \<longrightarrow> p' z = Some z"
    by blast
  have "wf ((uf_rel p)\<^sup>+)" using w by (rule wf_trancl)
  then have "wf (uf_rel p')" using r(4) by (rule wf_subset)
  with r show ?thesis by (auto simp: uf_inv_def)
qed

lemma root_no_parent:
  assumes "p r = Some r" and "(z, r) \<in> (uf_rel p)\<^sup>*"
  shows "z = r"
  using assms(2)
proof (cases rule: rtranclE)
  case base
  then show ?thesis by simp
next
  case (step y)
  then have "(y, r) \<in> uf_rel p" by simp
  with assms(1) show ?thesis by (auto simp: uf_rel_def)
qed

lemma uf_union_total:
  assumes "uf_inv L p" and "refl L" and "trans L" and "sym L" and "(a, b) \<in> L"
  shows "\<exists>p'. uf_union p a b = Some p' \<and> uf_inv L p'"
proof -
  from uf_find_total [OF assms(1,2,3), of a] obtain ra p1 where
    a: "uf_find p a = Some (ra, p1)" "uf_inv L p1" "p1 ra = Some ra" "(a, ra) \<in> L" by blast
  from uf_find_total [OF a(2) assms(2,3), of b] obtain rb p2 where
    b: "uf_find p1 b = Some (rb, p2)" "uf_inv L p2" "p2 rb = Some rb" "(b, rb) \<in> L"
      "\<forall>z. p1 z = Some z \<longrightarrow> p2 z = Some z" by blast
  have res: "uf_union p a b = Some (if ra \<noteq> rb then p2(rb \<mapsto> ra) else p2)"
    using a(1) b(1) by (simp add: uf_union_def)
  show ?thesis
  proof (cases "ra = rb")
    case True
    with res b(2) show ?thesis by simp
  next
    case False
    have ra_root: "p2 ra = Some ra" using a(3) b(5) by simp
    have w2: "wf (uf_rel p2)" using b(2) by (simp add: uf_inv_def)
    have "(rb, ra) \<notin> (uf_rel p2)\<^sup>*"
      using root_no_parent [where p = p2 and r = ra and z = rb] ra_root False by auto
    with w2 have "wf (insert (ra, rb) (uf_rel p2))" by simp
    then have w3: "wf (uf_rel (p2(rb \<mapsto> ra)))"
      using uf_rel_upd [of p2 rb ra] by (rule wf_subset)
    have "(rb, b) \<in> L" using b(4) assms(4) by (meson symD)
    moreover have "(b, a) \<in> L" using assms(4,5) by (meson symD)
    ultimately have "(rb, ra) \<in> L" using a(4) assms(3) by (meson transD)
    then have "\<forall>x y. (p2(rb \<mapsto> ra)) x = Some y \<longrightarrow> (x, y) \<in> L"
      using b(2) by (auto simp: uf_inv_def)
    with w3 res False show ?thesis by (simp add: uf_inv_def)
  qed
qed

lemma union_row_total:
  assumes "refl L" "trans L" "sym L" and near: "\<forall>a b. near a b \<longrightarrow> (a, b) \<in> L"
    and "uf_inv L p"
  shows "\<exists>p'. union_row near ni ns p = Some p' \<and> uf_inv L p'"
  using assms(5)
proof (induction ns arbitrary: p)
  case Nil
  then show ?case by simp
next
  case (Cons nj ns)
  show ?case
  proof (cases "near ni nj")
    case True
    with near have "(ni, nj) \<in> L" by simp
    from uf_union_total [OF Cons.prems assms(1,2,3) this] obtain p1 where
      "uf_union p ni nj = Some p1" "uf_inv L p1" by blast
    with Cons.IH [of p1] True show ?thesis by simp
  next
    case False
    with Cons.IH [OF Cons.prems] show ?thesis by simp
  qed
qed

lemma union_all_total:
  assumes "refl L" "trans L" "sym L" and near: "\<forall>a b. near a b \<longrightarrow> (a, b) \<in> L"
    and "uf_inv L p"
  shows "\<exists>p'. union_all near ns p = Some p' \<and> uf_inv L p'"
  using assms(5)
proof (induction ns arbitrary: p)
  case Nil
  then show ?case by simp
next
  case (Cons ni ns)
  from union_row_total [OF assms(1,2,3) near Cons.prems, of ni ns] obtain p1 where
    "union_row near ni ns p = Some p1" "uf_inv L p1" by blast
  with Cons.IH [of p1] show ?case by simp
qed

lemma map_of_push_member:
  "map_of (push_member cl r n) =
     (map_of cl)(r \<mapsto> (case map_of cl r of None \<Rightarrow> [n] | Some ms \<Rightarrow> ms @ [n]))"
  by (induction cl r n rule: push_member.induct) (auto simp: fun_eq_iff)

lemma keys_push_member: "fst ` set (push_member cl r n) = insert r (fst ` set cl)"
  by (induction cl r n rule: push_member.induct) auto

lemma clusters_inv_push:
  assumes "clusters_inv L P cl" and "n \<notin> P" and "(n, r) \<in> L"
  shows "clusters_inv L (insert n P) (push_member cl r n)"
proof -
  let ?M = "map_of cl"
  let ?v = "case ?M r of None \<Rightarrow> [n] | Some ms \<Rightarrow> ms @ [n]"
  have M': "map_of (push_member cl r n) = ?M(r \<mapsto> ?v)" by (rule map_of_push_member)
  from assms(1) have
    a: "\<And>k ms. ?M k = Some ms \<Longrightarrow> ms \<noteq> [] \<and> set ms \<subseteq> P \<and> (\<forall>m \<in> set ms. (m, k) \<in> L)"
    and b: "\<And>k1 k2 ms1 ms2. ?M k1 = Some ms1 \<Longrightarrow> ?M k2 = Some ms2 \<Longrightarrow> k1 \<noteq> k2 \<Longrightarrow>
              set ms1 \<inter> set ms2 = {}"
    and c: "\<And>m. m \<in> P \<Longrightarrow> \<exists>k ms. ?M k = Some ms \<and> m \<in> set ms"
    unfolding clusters_inv_def clusters_sound_def clusters_part_def by blast+
  have v: "?v \<noteq> [] \<and> set ?v \<subseteq> insert n P \<and> (\<forall>m \<in> set ?v. (m, r) \<in> L) \<and> n \<in> set ?v"
    using a [of r] assms(3) by (auto split: option.splits)
  have vsub: "\<And>ms. ?M r = Some ms \<Longrightarrow> set ms \<subseteq> set ?v" by auto
  have vel: "set ?v \<subseteq> insert n (case ?M r of None \<Rightarrow> {} | Some ms \<Rightarrow> set ms)"
    by (auto split: option.splits)
  have 1: "\<forall>k ms. (?M(r \<mapsto> ?v)) k = Some ms \<longrightarrow>
              ms \<noteq> [] \<and> set ms \<subseteq> insert n P \<and> (\<forall>m \<in> set ms. (m, k) \<in> L)"
    using v a by (auto split: if_splits)
  have 2: "\<forall>k1 k2 ms1 ms2. (?M(r \<mapsto> ?v)) k1 = Some ms1 \<and> (?M(r \<mapsto> ?v)) k2 = Some ms2 \<and> k1 \<noteq> k2
              \<longrightarrow> set ms1 \<inter> set ms2 = {}"
  proof (intro allI impI)
    fix k1 k2 ms1 ms2
    assume h: "(?M(r \<mapsto> ?v)) k1 = Some ms1 \<and> (?M(r \<mapsto> ?v)) k2 = Some ms2 \<and> k1 \<noteq> k2"
    have other: "\<And>k ms. k \<noteq> r \<Longrightarrow> ?M k = Some ms \<Longrightarrow> set ms \<inter> set ?v = {}"
    proof -
      fix k ms assume k: "k \<noteq> r" "?M k = Some ms"
      then have "n \<notin> set ms" using a [of k ms] assms(2) by auto
      moreover have "\<And>ms0. ?M r = Some ms0 \<Longrightarrow> set ms \<inter> set ms0 = {}"
        using b [of k ms r] k by auto
      ultimately show "set ms \<inter> set ?v = {}" by (auto split: option.splits)
    qed
    show "set ms1 \<inter> set ms2 = {}"
    proof (cases "k1 = r")
      case True
      with h have "ms1 = ?v" "k2 \<noteq> r" "?M k2 = Some ms2" by auto
      with other [of k2 ms2] show ?thesis by auto
    next
      case False
      show ?thesis
      proof (cases "k2 = r")
        case True
        with h False have "ms2 = ?v" "?M k1 = Some ms1" by auto
        with other [of k1 ms1] False show ?thesis by auto
      next
        case k2: False
        with h False show ?thesis using b [of k1 ms1 k2 ms2] by auto
      qed
    qed
  qed
  have 3: "\<forall>m \<in> insert n P. \<exists>k ms. (?M(r \<mapsto> ?v)) k = Some ms \<and> m \<in> set ms"
  proof
    fix m assume "m \<in> insert n P"
    then consider "m = n" | "m \<in> P" by auto
    then show "\<exists>k ms. (?M(r \<mapsto> ?v)) k = Some ms \<and> m \<in> set ms"
    proof cases
      case 1
      with v show ?thesis by auto
    next
      case 2
      from c [OF this] obtain k ms where k: "?M k = Some ms" "m \<in> set ms" by blast
      show ?thesis
      proof (cases "k = r")
        case True
        with k vsub [of ms] show ?thesis by auto
      next
        case False
        with k show ?thesis by auto
      qed
    qed
  qed
  show ?thesis unfolding clusters_inv_def clusters_sound_def clusters_part_def M' using 1 2 3 by blast
qed

lemma clusters_sound_push:
  assumes "clusters_sound L P cl" and "(n, r) \<in> L"
  shows "clusters_sound L (insert n P) (push_member cl r n)"
  using assms unfolding clusters_sound_def map_of_push_member
  by (auto split: option.splits if_splits)

lemma cluster_nodes_sound:
  assumes "refl L" "trans L" and "uf_inv L p" and "clusters_sound L P cl"
  shows "\<exists>cl'. cluster_nodes ns p cl = Some cl' \<and> clusters_sound L (P \<union> set ns) cl'"
  using assms(3-)
proof (induction ns arbitrary: p cl P)
  case Nil
  then show ?case by simp
next
  case (Cons n ns)
  from uf_find_total [OF Cons.prems(1) assms(1,2), of n] obtain r p' where
    r: "uf_find p n = Some (r, p')" "uf_inv L p'" "(n, r) \<in> L" by blast
  from clusters_sound_push [OF Cons.prems(2) r(3)]
  have i: "clusters_sound L (insert n P) (push_member cl r n)" .
  from Cons.IH [OF r(2) i] obtain cl' where
    "cluster_nodes ns p' (push_member cl r n) = Some cl'"
    "clusters_sound L (insert n P \<union> set ns) cl'" by blast
  with r(1) show ?case by auto
qed

lemma cluster_nodes_total:
  assumes "refl L" "trans L" and "uf_inv L p" and "clusters_inv L P cl"
    and "distinct ns" and "set ns \<inter> P = {}"
  shows "\<exists>cl'. cluster_nodes ns p cl = Some cl' \<and> clusters_inv L (P \<union> set ns) cl'"
  using assms(3-)
proof (induction ns arbitrary: p cl P)
  case Nil
  then show ?case by simp
next
  case (Cons n ns)
  from uf_find_total [OF Cons.prems(1) assms(1,2), of n] obtain r p' where
    r: "uf_find p n = Some (r, p')" "uf_inv L p'" "(n, r) \<in> L" by blast
  have "n \<notin> P" using Cons.prems(4) by auto
  from clusters_inv_push [OF Cons.prems(2) this r(3)]
  have i: "clusters_inv L (insert n P) (push_member cl r n)" .
  have d: "distinct ns" "set ns \<inter> insert n P = {}" using Cons.prems(3,4) by auto
  from Cons.IH [OF r(2) i d] obtain cl' where
    "cluster_nodes ns p' (push_member cl r n) = Some cl'"
    "clusters_inv L (insert n P \<union> set ns) cl'" by blast
  with r(1) show ?case by auto
qed

lemma object_values_member:
  "c \<in> set (object_values kvs) \<longleftrightarrow> (\<exists>k. map_of kvs k = Some c)"
proof
  assume "c \<in> set (object_values kvs)"
  then show "\<exists>k. map_of kvs k = Some c"
    by (auto simp: object_values_def List.map_filter_def)
next
  assume "\<exists>k. map_of kvs k = Some c"
  then obtain k where k: "map_of kvs k = Some c" by blast
  then have "k \<in> fst ` set kvs" by (force dest: map_of_SomeD)
  then have "k \<in> set (js_key_order (map fst kvs))" by simp
  with k have "the (map_of kvs k) \<in> set (object_values kvs)"
    unfolding object_values_def List.map_filter_def by force
  with k show "c \<in> set (object_values kvs)" by simp
qed

lemma disj_map_filter:
  assumes "distinct ks"
    and "\<forall>k1 k2 ms1 ms2. M k1 = Some ms1 \<and> M k2 = Some ms2 \<and> k1 \<noteq> k2 \<longrightarrow> set ms1 \<inter> set ms2 = {}"
  shows "disj_lists (List.map_filter M ks)"
  using assms(1)
proof (induction ks)
  case Nil
  then show ?case by (simp add: List.map_filter_def)
next
  case (Cons k ks)
  then have IH: "disj_lists (List.map_filter M ks)" and nk: "k \<notin> set ks" by simp_all
  show ?case
  proof (cases "M k")
    case None
    with IH show ?thesis by (simp add: List.map_filter_def)
  next
    case (Some v)
    have "set v \<inter> \<Union> (set ` set (List.map_filter M ks)) = {}"
    proof -
      have "\<And>c. c \<in> set (List.map_filter M ks) \<Longrightarrow> set v \<inter> set c = {}"
      proof -
        fix c assume "c \<in> set (List.map_filter M ks)"
        then obtain k' where "k' \<in> set ks" "M k' = Some c"
          by (auto simp: List.map_filter_def)
        with nk Some assms(2) show "set v \<inter> set c = {}" by blast
      qed
      then show ?thesis by blast
    qed
    with IH Some show ?thesis by (simp add: List.map_filter_def)
  qed
qed

lemma sin_half_sq: "(sin ((a - b) / 2))\<^sup>2 = (sin ((b - a) / 2))\<^sup>2" for a b :: real
proof -
  have "(a - b) / 2 = - ((b - a) / 2)" by (simp add: field_simps)
  then have "sin ((a - b) / 2) = - sin ((b - a) / 2)" by (simp only: sin_minus)
  then show ?thesis by simp
qed

lemma great_circle_sym: "great_circle lat1 lon1 lat2 lon2 = great_circle lat2 lon2 lat1 lon1"
proof -
  have 1: "(sin ((lat2 * pi / 180 - lat1 * pi / 180) / 2))\<^sup>2
           = (sin ((lat1 * pi / 180 - lat2 * pi / 180) / 2))\<^sup>2" by (rule sin_half_sq)
  have 2: "(sin ((lon2 * pi / 180 - lon1 * pi / 180) / 2))\<^sup>2
           = (sin ((lon1 * pi / 180 - lon2 * pi / 180) / 2))\<^sup>2" by (rule sin_half_sq)
  show ?thesis unfolding great_circle_def Let_def 1 2 by (simp add: mult.commute)
qed

lemma distance_sym: "distance projected cs a b = distance projected cs b a"
proof -
  have "\<And>x y u v :: real. (x - u) * (x - u) + (y - v) * (y - v) = (u - x) * (u - x) + (v - y) * (v - y)"
    by (simp add: algebra_simps)
  then show ?thesis
    by (auto simp: distance_def Let_def great_circle_sym [of _ _ _ _] split: option.splits)
qed

lemma sym_proximity: "sym (proximity G t)"
  by (auto simp: sym_def proximity_def within_threshold_def distance_sym [of _ _ _ _])

lemma cluster_lists_total:
  "\<exists>cs. cluster_lists G t = Some cs \<and>
        (\<forall>c \<in> set cs. c \<noteq> [] \<and>
            set c \<subseteq> {n \<in> nid ` set (gnodes G). node_coords G n \<noteq> None} \<and>
            (\<forall>a \<in> set c. \<forall>b \<in> set c. (a, b) \<in> (proximity G t)\<^sup>*)) \<and>
        (distinct (map nid (gnodes G)) \<longrightarrow>
           disj_lists cs \<and>
           (\<forall>n \<in> nid ` set (gnodes G). node_coords G n \<noteq> None \<longrightarrow> (\<exists>c \<in> set cs. n \<in> set c)))"
proof -
  let ?L = "(proximity G t)\<^sup>*"
  let ?cs = "node_coords G"
  let ?near = "within_threshold
                 (is_projected (case get_attr (gattrs G) ''crs'' of Str s \<Rightarrow> Str s | _ \<Rightarrow> Undefined))
                 ?cs (2 * t)"
  let ?ns = "filter (\<lambda>n. ?cs n \<noteq> None) (map nid (gnodes G))"
  have rf: "refl ?L" by (simp add: refl_rtrancl)
  have tr: "trans ?L" by (rule trans_rtrancl)
  have sy: "sym ?L" using sym_proximity by (rule sym_rtrancl)
  have near: "\<forall>a b. ?near a b \<longrightarrow> (a, b) \<in> ?L" by (auto simp: proximity_def)
  have "uf_inv ?L Map.empty" by (simp add: uf_inv_def uf_rel_def)
  from union_all_total [OF rf tr sy near this, of ?ns] obtain p where
    p: "union_all ?near ?ns Map.empty = Some p" "uf_inv ?L p" by blast
  have "clusters_sound ?L {} []" by (simp add: clusters_sound_def)
  from cluster_nodes_sound [OF rf tr p(2) this, of ?ns] obtain cl where
    cl: "cluster_nodes ?ns p [] = Some cl" "clusters_sound ?L (set ?ns) cl" by auto
  have res: "cluster_lists G t = Some (object_values cl)"
    using p(1) cl(1) by (simp add: cluster_lists_def Let_def)
  from cl(2) have
    a: "\<And>k ms. map_of cl k = Some ms \<Longrightarrow> ms \<noteq> [] \<and> set ms \<subseteq> set ?ns \<and> (\<forall>m \<in> set ms. (m, k) \<in> ?L)"
    unfolding clusters_sound_def by blast
  have 1: "\<forall>c \<in> set (object_values cl). c \<noteq> [] \<and>
          set c \<subseteq> {n \<in> nid ` set (gnodes G). ?cs n \<noteq> None} \<and>
          (\<forall>a \<in> set c. \<forall>b \<in> set c. (a, b) \<in> ?L)"
  proof
    fix c assume "c \<in> set (object_values cl)"
    then obtain k where k: "map_of cl k = Some c" by (auto simp: object_values_member)
    from a [OF k] have ne: "c \<noteq> []" and sub: "set c \<subseteq> set ?ns"
      and l: "\<forall>m \<in> set c. (m, k) \<in> ?L" by auto
    have "\<forall>a \<in> set c. \<forall>b \<in> set c. (a, b) \<in> ?L"
    proof (intro ballI)
      fix a b assume "a \<in> set c" "b \<in> set c"
      with l have "(a, k) \<in> ?L" "(b, k) \<in> ?L" by auto
      then have "(a, k) \<in> ?L" "(k, b) \<in> ?L" using sy by (auto dest: symD)
      then show "(a, b) \<in> ?L" using tr by (meson transD)
    qed
    with ne sub show "c \<noteq> [] \<and> set c \<subseteq> {n \<in> nid ` set (gnodes G). ?cs n \<noteq> None} \<and>
          (\<forall>a \<in> set c. \<forall>b \<in> set c. (a, b) \<in> ?L)" by auto
  qed
  have 2: "distinct (map nid (gnodes G)) \<longrightarrow>
           disj_lists (object_values cl) \<and>
           (\<forall>n \<in> nid ` set (gnodes G). ?cs n \<noteq> None \<longrightarrow> (\<exists>c \<in> set (object_values cl). n \<in> set c))"
  proof
    assume "distinct (map nid (gnodes G))"
    then have d: "distinct ?ns" by simp
    have "clusters_inv ?L {} []"
      by (simp add: clusters_inv_def clusters_sound_def clusters_part_def)
    from cluster_nodes_total [OF rf tr p(2) this d] cl(1)
    have "clusters_inv ?L (set ?ns) cl" by auto
    then have
      b: "\<forall>k1 k2 ms1 ms2. map_of cl k1 = Some ms1 \<and> map_of cl k2 = Some ms2 \<and> k1 \<noteq> k2 \<longrightarrow>
              set ms1 \<inter> set ms2 = {}"
      and c: "\<And>m. m \<in> set ?ns \<Longrightarrow> \<exists>k ms. map_of cl k = Some ms \<and> m \<in> set ms"
      unfolding clusters_inv_def clusters_part_def by blast+
    have d2: "disj_lists (object_values cl)"
      unfolding object_values_def by (rule disj_map_filter [OF _ b]) simp
    have "\<forall>n \<in> nid ` set (gnodes G). ?cs n \<noteq> None \<longrightarrow> (\<exists>c \<in> set (object_values cl). n \<in> set c)"
    proof (intro ballI impI)
      fix n assume "n \<in> nid ` set (gnodes G)" "?cs n \<noteq> None"
      then have "n \<in> set ?ns" by auto
      from c [OF this] obtain k ms where "map_of cl k = Some ms" "n \<in> set ms" by blast
      then have "ms \<in> set (object_values cl)" "n \<in> set ms"
        by (auto simp: object_values_member)
      then show "\<exists>c \<in> set (object_values cl). n \<in> set c" by blast
    qed
    with d2 show "disj_lists (object_values cl) \<and>
           (\<forall>n \<in> nid ` set (gnodes G). ?cs n \<noteq> None \<longrightarrow> (\<exists>c \<in> set (object_values cl). n \<in> set c))"
      by blast
  qed
  from res 1 2 show ?thesis by blast
qed

lemma least_string_mem: "least_string x xs \<in> set (x # xs)"
proof -
  have "\<And>b. fold (\<lambda>n best. if str_less n best then n else best) xs b \<in> insert b (set xs)"
    by (induction xs) (auto split: if_splits)
  then show ?thesis by (simp add: least_string_def)
qed

lemma fold_rep_map:
  "fold (\<lambda>n m. m(n \<mapsto> rep)) c m0 = (\<lambda>n. if n \<in> set c then Some rep else m0 n)"
  by (induction c arbitrary: m0) (auto simp: fun_eq_iff)

lemma cluster_fold:
  assumes "\<forall>c \<in> set cls. c \<noteq> [] \<and> set c \<subseteq> nid ` set (gnodes G)"
    and "disj_lists cls"
    and "nid ` set (gnodes H0) \<inter> \<Union> (set ` set cls) = {}"
    and "reps_in H0 m0"
  shows "\<exists>H m. fold (add_cluster G cs) cls (Inr (H0, m0)) = Inr (H, m) \<and> same_frame H H0 \<and>
           reps_in H m \<and> (\<forall>n \<in> \<Union> (set ` set cls). m n \<noteq> None) \<and>
           (\<forall>n. m0 n \<noteq> None \<longrightarrow> m n \<noteq> None) \<and>
           (\<forall>nd \<in> set (gnodes H). nd \<in> set (gnodes H0) \<or>
              (\<exists>c \<in> set cls. get_attr (nattrs nd) ''_merged_nodes'' = Arr (map Str c)))"
  using assms
proof (induction cls arbitrary: H0 m0)
  case Nil
  then show ?case by (simp add: same_frame_def)
next
  case (Cons c cls)
  from Cons.prems(1) obtain x rest where c: "c = x # rest" by (cases c) auto
  let ?rep = "least_string x rest"
  have rep_c: "?rep \<in> set c" using least_string_mem [of x rest] c by simp
  then have "hasNode G ?rep" using Cons.prems(1) by (auto simp: hasNode_def)
  from hasNode_find [OF this] obtain a where a: "find_node G ?rep = Some a" by blast
  have fresh: "\<not> hasNode H0 ?rep" using rep_c Cons.prems(3) by (auto simp: hasNode_def)
  let ?nd = "\<lparr>nid = ?rep,
              nx = Some (foldl (\<lambda>a n. a + (case cs n of None \<Rightarrow> 0 | Some (x, y) \<Rightarrow> x)) 0 c / real (length c)),
              ny = Some (foldl (\<lambda>a n. a + (case cs n of None \<Rightarrow> 0 | Some (x, y) \<Rightarrow> y)) 0 c / real (length c)),
              nattrs = set_attr (nattrs a) ''_merged_nodes'' (Arr (map Str c))\<rparr>"
  let ?H1 = "H0\<lparr>gnodes := gnodes H0 @ [?nd]\<rparr>"
  let ?m1 = "fold (\<lambda>n m. m(n \<mapsto> ?rep)) c m0"
  have step: "add_cluster G cs c (Inr (H0, m0)) = Inr (?H1, ?m1)"
    using a fresh c by (simp add: add_cluster_def Let_def addNode_def)
  have m1: "?m1 = (\<lambda>n. if n \<in> set c then Some ?rep else m0 n)" by (rule fold_rep_map)
  have p1: "\<forall>c \<in> set cls. c \<noteq> [] \<and> set c \<subseteq> nid ` set (gnodes G)" using Cons.prems(1) by simp
  have p2: "disj_lists cls" using Cons.prems(2) by simp
  have p3: "nid ` set (gnodes ?H1) \<inter> \<Union> (set ` set cls) = {}"
    using Cons.prems(2,3) rep_c by auto
  have p4: "reps_in ?H1 ?m1"
    using Cons.prems(4) unfolding reps_in_def m1 by (auto simp: hasNode_def)
  from Cons.IH [OF p1 p2 p3 p4] obtain H m where
    r: "fold (add_cluster G cs) cls (Inr (?H1, ?m1)) = Inr (H, m)" "same_frame H ?H1"
      "reps_in H m" "\<forall>n \<in> \<Union> (set ` set cls). m n \<noteq> None"
      "\<forall>n. ?m1 n \<noteq> None \<longrightarrow> m n \<noteq> None"
      "\<forall>nd \<in> set (gnodes H). nd \<in> set (gnodes ?H1) \<or>
          (\<exists>c \<in> set cls. get_attr (nattrs nd) ''_merged_nodes'' = Arr (map Str c))"
    by blast
  have f: "fold (add_cluster G cs) (c # cls) (Inr (H0, m0)) = Inr (H, m)"
    using step r(1) by simp
  have s: "same_frame H H0" using r(2) by (simp add: same_frame_def)
  have cov: "\<forall>n \<in> \<Union> (set ` set (c # cls)). m n \<noteq> None"
    using r(4,5) unfolding m1 by auto
  have mono: "\<forall>n. m0 n \<noteq> None \<longrightarrow> m n \<noteq> None" using r(5) unfolding m1 by auto
  have "get_attr (nattrs ?nd) ''_merged_nodes'' = Arr (map Str c)" by simp
  then have nodes: "\<forall>nd \<in> set (gnodes H). nd \<in> set (gnodes H0) \<or>
              (\<exists>c' \<in> set (c # cls). get_attr (nattrs nd) ''_merged_nodes'' = Arr (map Str c'))"
    using r(6) by auto
  from f s r(3) cov mono nodes show ?case by blast
qed

lemma unlocated_fold:
  assumes "reps_in H0 m0"
  shows "\<exists>H m. fold (add_unlocated cs) nds (Inr (H0, m0)) = Inr (H, m) \<and> same_frame H H0 \<and>
           reps_in H m \<and> (\<forall>n. m0 n \<noteq> None \<longrightarrow> m n \<noteq> None) \<and>
           (\<forall>nd \<in> set nds. cs (nid nd) = None \<longrightarrow> m (nid nd) \<noteq> None) \<and>
           (\<forall>nd \<in> set (gnodes H). nd \<in> set (gnodes H0) \<or>
              get_attr (nattrs nd) ''_merged_nodes'' = Arr [Str (nid nd)])"
  using assms
proof (induction nds arbitrary: H0 m0)
  case Nil
  then show ?case by (simp add: same_frame_def)
next
  case (Cons nd nds)
  let ?nd' = "nd\<lparr>nattrs := set_attr (nattrs nd) ''_merged_nodes'' (Arr [Str (nid nd)])\<rparr>"
  obtain H1 m1 where step: "add_unlocated cs nd (Inr (H0, m0)) = Inr (H1, m1)"
    and fr: "same_frame H1 H0" and ri: "reps_in H1 m1"
    and mono: "\<forall>n. m0 n \<noteq> None \<longrightarrow> m1 n \<noteq> None"
    and cov: "cs (nid nd) = None \<longrightarrow> m1 (nid nd) \<noteq> None"
    and nodes: "\<forall>x \<in> set (gnodes H1). x \<in> set (gnodes H0) \<or>
                  get_attr (nattrs x) ''_merged_nodes'' = Arr [Str (nid x)]"
  proof (cases "cs (nid nd) \<noteq> None")
    case True
    show ?thesis
      by (rule that [of H0 m0]) (use True Cons.prems in \<open>auto simp: add_unlocated_def same_frame_def\<close>)
  next
    case False
    show ?thesis
    proof (cases "hasNode H0 (nid nd)")
      case True
      show ?thesis
        by (rule that [of H0 "m0(nid nd \<mapsto> nid nd)"])
          (use True False Cons.prems in \<open>auto simp: add_unlocated_def same_frame_def reps_in_def\<close>)
    next
      case h: False
      show ?thesis
        by (rule that [of "H0\<lparr>gnodes := gnodes H0 @ [?nd']\<rparr>" "m0(nid nd \<mapsto> nid nd)"])
          (use h False Cons.prems in
            \<open>auto simp: add_unlocated_def addNode_def same_frame_def reps_in_def hasNode_def\<close>)
    qed
  qed
  from Cons.IH [OF ri] obtain H m where
    r: "fold (add_unlocated cs) nds (Inr (H1, m1)) = Inr (H, m)" "same_frame H H1"
      "reps_in H m" "\<forall>n. m1 n \<noteq> None \<longrightarrow> m n \<noteq> None"
      "\<forall>nd \<in> set nds. cs (nid nd) = None \<longrightarrow> m (nid nd) \<noteq> None"
      "\<forall>nd \<in> set (gnodes H). nd \<in> set (gnodes H1) \<or>
          get_attr (nattrs nd) ''_merged_nodes'' = Arr [Str (nid nd)]"
    by blast
  have f: "fold (add_unlocated cs) (nd # nds) (Inr (H0, m0)) = Inr (H, m)"
    using step r(1) by simp
  have s: "same_frame H H0" using r(2) fr by (simp add: same_frame_def)
  have mono': "\<forall>n. m0 n \<noteq> None \<longrightarrow> m n \<noteq> None" using mono r(4) by blast
  have cov': "\<forall>x \<in> set (nd # nds). cs (nid x) = None \<longrightarrow> m (nid x) \<noteq> None"
    using cov r(4,5) by auto
  have nodes': "\<forall>x \<in> set (gnodes H). x \<in> set (gnodes H0) \<or>
              get_attr (nattrs x) ''_merged_nodes'' = Arr [Str (nid x)]"
    using nodes r(6) by blast
  from f s r(3) mono' cov' nodes' show ?case by blast
qed

lemma remap_fold:
  assumes "\<forall>e \<in> set es. m (esrc e) \<noteq> None \<and> m (etgt e) \<noteq> None"
    and "reps_in H0 m" and "edges_in_graph H0"
  shows "\<exists>H. fold (remap_edge m) es (Inr H0) = Inr H \<and> gattrs H = gattrs H0 \<and>
           gnodes H = gnodes H0 \<and> edges_in_graph H"
  using assms
proof (induction es arbitrary: H0)
  case Nil
  then show ?case by simp
next
  case (Cons e es)
  from Cons.prems(1) obtain r1 r2 where r: "m (esrc e) = Some r1" "m (etgt e) = Some r2" by auto
  with Cons.prems(2) have h: "hasNode H0 r1" "hasNode H0 r2" by (auto simp: reps_in_def)
  let ?H1 = "H0\<lparr>gedges := gedges H0 @
                 [\<lparr>ekey = ''geid_'' @ show_nat (gcount H0), esrc = r1, etgt = r2, eattrs = eattrs e\<rparr>],
               gcount := Suc (gcount H0)\<rparr>"
  have step: "remap_edge m e (Inr H0) = Inr ?H1"
    using r h by (simp add: remap_edge_def addEdge_def)
  have p1: "\<forall>e \<in> set es. m (esrc e) \<noteq> None \<and> m (etgt e) \<noteq> None" using Cons.prems(1) by simp
  have p2: "reps_in ?H1 m" using Cons.prems(2) by (simp add: reps_in_def hasNode_def)
  have p3: "edges_in_graph ?H1"
    using Cons.prems(3) h by (simp add: edges_in_graph_def hasNode_def)
  from Cons.IH [OF p1 p2 p3] step show ?case by auto
qed

lemma coords_fold:
  "fold (\<lambda>nd m. case (nx nd, ny nd) of (Some x, Some y) \<Rightarrow> m(nid nd \<mapsto> (x, y)) | _ \<Rightarrow> m) nds m n
     \<noteq> None \<Longrightarrow> m n \<noteq> None \<or> n \<in> nid ` set nds"
proof (induction nds arbitrary: m)
  case Nil
  then show ?case by simp
next
  case (Cons nd nds)
  let ?m1 = "case (nx nd, ny nd) of (Some x, Some y) \<Rightarrow> m(nid nd \<mapsto> (x, y)) | _ \<Rightarrow> m"
  from Cons.prems have "fold (\<lambda>nd m. case (nx nd, ny nd) of (Some x, Some y) \<Rightarrow> m(nid nd \<mapsto> (x, y))
                               | _ \<Rightarrow> m) nds ?m1 n \<noteq> None"
    by simp
  from Cons.IH [OF this] have "?m1 n \<noteq> None \<or> n \<in> nid ` set nds" .
  then show ?case by (auto split: option.splits if_splits)
qed

lemma coords_of_node: "node_coords G n \<noteq> None \<Longrightarrow> n \<in> nid ` set (gnodes G)"
  using coords_fold [of "gnodes G" Map.empty n] by (simp add: node_coords_def)

lemma consolidate_total:
  assumes "wf_graph G"
  shows "\<exists>H. consolidate_intersections G t = Some (Inr H) \<and>
           gattrs H = [(''crs'', get_attr (gattrs G) ''crs'')] \<and> edges_in_graph H \<and>
           (\<forall>nd \<in> set (gnodes H). \<exists>c. get_attr (nattrs nd) ''_merged_nodes'' = Arr (map Str c) \<and>
              (\<forall>a \<in> set c. \<forall>b \<in> set c. (a, b) \<in> (proximity G t)\<^sup>*))"
proof -
  let ?cs = "node_coords G"
  from assms have d: "distinct (map nid (gnodes G))" and eg: "edges_in_graph G"
    by (simp_all add: wf_graph_def)
  from cluster_lists_total [of G t] d obtain cls where
    cl: "cluster_lists G t = Some cls"
    and c1: "\<forall>c \<in> set cls. c \<noteq> [] \<and>
            set c \<subseteq> {n \<in> nid ` set (gnodes G). ?cs n \<noteq> None} \<and>
            (\<forall>a \<in> set c. \<forall>b \<in> set c. (a, b) \<in> (proximity G t)\<^sup>*)"
    and c2: "disj_lists cls"
    and c3: "\<forall>n \<in> nid ` set (gnodes G). ?cs n \<noteq> None \<longrightarrow> (\<exists>c \<in> set cls. n \<in> set c)"
    by blast
  let ?N = "\<lparr>gattrs = set_attr [] ''crs'' (get_attr (gattrs G) ''crs''),
             gnodes = [], gedges = [], gcount = 0\<rparr>"
  have a1: "\<forall>c \<in> set cls. c \<noteq> [] \<and> set c \<subseteq> nid ` set (gnodes G)" using c1 by blast
  have a3: "nid ` set (gnodes ?N) \<inter> \<Union> (set ` set cls) = {}" by simp
  have a4: "reps_in ?N Map.empty" by (simp add: reps_in_def)
  from cluster_fold [OF a1 c2 a3 a4, of ?cs] obtain H1 m1 where
    h1: "fold (add_cluster G ?cs) cls (Inr (?N, Map.empty)) = Inr (H1, m1)" "same_frame H1 ?N"
      "reps_in H1 m1" "\<forall>n \<in> \<Union> (set ` set cls). m1 n \<noteq> None"
      "\<forall>nd \<in> set (gnodes H1). nd \<in> set (gnodes ?N) \<or>
          (\<exists>c \<in> set cls. get_attr (nattrs nd) ''_merged_nodes'' = Arr (map Str c))"
    by blast
  from unlocated_fold [OF h1(3), of ?cs "gnodes G"] obtain H2 m2 where
    h2: "fold (add_unlocated ?cs) (gnodes G) (Inr (H1, m1)) = Inr (H2, m2)" "same_frame H2 H1"
      "reps_in H2 m2" "\<forall>n. m1 n \<noteq> None \<longrightarrow> m2 n \<noteq> None"
      "\<forall>nd \<in> set (gnodes G). ?cs (nid nd) = None \<longrightarrow> m2 (nid nd) \<noteq> None"
      "\<forall>nd \<in> set (gnodes H2). nd \<in> set (gnodes H1) \<or>
          get_attr (nattrs nd) ''_merged_nodes'' = Arr [Str (nid nd)]"
    by blast
  have all: "\<forall>n \<in> nid ` set (gnodes G). m2 n \<noteq> None"
  proof
    fix n assume n: "n \<in> nid ` set (gnodes G)"
    show "m2 n \<noteq> None"
    proof (cases "?cs n = None")
      case True
      with n h2(5) show ?thesis by auto
    next
      case False
      with n c3 obtain c where "c \<in> set cls" "n \<in> set c" by blast
      with h1(4) have "m1 n \<noteq> None" by blast
      with h2(4) show ?thesis by blast
    qed
  qed
  have e: "\<forall>e \<in> set (gedges G). m2 (esrc e) \<noteq> None \<and> m2 (etgt e) \<noteq> None"
    using eg all by (auto simp: edges_in_graph_def list_all_iff)
  have fr2: "gattrs H2 = set_attr [] ''crs'' (get_attr (gattrs G) ''crs'')" "gedges H2 = []"
    using h1(2) h2(2) by (simp_all add: same_frame_def)
  then have "edges_in_graph H2" by (simp add: edges_in_graph_def)
  from remap_fold [OF e h2(3) this] obtain H where
    h: "fold (remap_edge m2) (gedges G) (Inr H2) = Inr H" "gattrs H = gattrs H2"
      "gnodes H = gnodes H2" "edges_in_graph H" by blast
  have res: "consolidate_intersections G t = Some (Inr H)"
    using cl h1(1) h2(1) h(1)
    by (simp add: consolidate_intersections_def build_consolidated_def Let_def)
  have nodes: "\<forall>nd \<in> set (gnodes H). \<exists>c. get_attr (nattrs nd) ''_merged_nodes'' = Arr (map Str c) \<and>
              (\<forall>a \<in> set c. \<forall>b \<in> set c. (a, b) \<in> (proximity G t)\<^sup>*)"
  proof
    fix nd assume "nd \<in> set (gnodes H)"
    then have "nd \<in> set (gnodes H2)" using h(3) by simp
    with h2(6) consider "nd \<in> set (gnodes H1)"
      | "get_attr (nattrs nd) ''_merged_nodes'' = Arr [Str (nid nd)]" by blast
    then show "\<exists>c. get_attr (nattrs nd) ''_merged_nodes'' = Arr (map Str c) \<and>
              (\<forall>a \<in> set c. \<forall>b \<in> set c. (a, b) \<in> (proximity G t)\<^sup>*)"
    proof cases
      case 1
      with h1(5) obtain c where "c \<in> set cls"
        "get_attr (nattrs nd) ''_merged_nodes'' = Arr (map Str c)" by auto
      with c1 show ?thesis by blast
    next
      case 2
      then have "get_attr (nattrs nd) ''_merged_nodes'' = Arr (map Str [nid nd])" by simp
      moreover have "\<forall>a \<in> set [nid nd]. \<forall>b \<in> set [nid nd]. (a, b) \<in> (proximity G t)\<^sup>*" by simp
      ultimately show ?thesis by blast
    qed
  qed
  from res fr2(1) h(2,4) nodes show ?thesis by simp
qed

lemma sqrt_le_iff: "sqrt a \<le> b \<longleftrightarrow> a \<le> b * \<bar>b\<bar>"
proof -
  have "sqrt (b * \<bar>b\<bar>) = b"
  proof (cases "0 \<le> b")
    case True
    then show ?thesis by simp
  next
    case False
    then have "b * \<bar>b\<bar> = - (b * b)" by simp
    moreover have "sqrt (- (b * b)) = - \<bar>b\<bar>" by (simp add: real_sqrt_minus)
    ultimately show ?thesis using False by simp
  qed
  then have "sqrt a \<le> b \<longleftrightarrow> sqrt a \<le> sqrt (b * \<bar>b\<bar>)" by simp
  then show ?thesis by (simp only: real_sqrt_le_iff)
qed

lemma within_projected:
  "within_threshold True cs th a b =
     (case (cs a, cs b) of
        (Some (ax, ay), Some (bx, by)) \<Rightarrow> (ax - bx) * (ax - bx) + (ay - by) * (ay - by) \<le> th * \<bar>th\<bar>
      | _ \<Rightarrow> False)"
  by (auto simp: within_threshold_def distance_def Let_def sqrt_le_iff split: option.splits)

lemma line3_coords:
  "node_coords line3 = [''a'' \<mapsto> (0, 0), ''b'' \<mapsto> (15, 0), ''c'' \<mapsto> (30, 0)]"
  by (simp add: node_coords_def line3_def)

lemma line3_projected:
  "is_projected (case get_attr (gattrs line3) ''crs'' of Str s \<Rightarrow> Str s | _ \<Rightarrow> Undefined)"
  by code_simp

lemma line3_nodes: "map nid (gnodes line3) = [''a'', ''b'', ''c'']"
  by (simp add: line3_def)

lemma line3_clusters: "cluster_lists line3 10 = Some [[''a'', ''b'', ''c'']]"
  unfolding cluster_lists_def Let_def
  apply (simp only: line3_projected line3_coords line3_nodes)
  apply (simp add: within_projected uf_union_def uf_find_new uf_find_root uf_find_step
      object_values_def js_key_order_def is_array_index_def is_digit_def List.map_filter_def)
  done

lemma show_nat_small: "show_nat 0 = ''0''" "show_nat (Suc 0) = ''1''"
  by code_simp+

lemma line3_build:
  "build_consolidated line3 [''a'' \<mapsto> (0, 0), ''b'' \<mapsto> (15, 0), ''c'' \<mapsto> (30, 0)]
     [[''a'', ''b'', ''c'']] = Inr line3_merged"
  by (simp add: build_consolidated_def add_cluster_def add_unlocated_def remap_edge_def
      least_string_def find_node_def addNode_def addEdge_def hasNode_def get_attr_def
      line3_def line3_merged_def Let_def show_nat_small del: show_nat.simps)

lemma line3_consolidated: "consolidate_intersections line3 10 = Some (Inr line3_merged)"
  unfolding consolidate_intersections_def
  by (simp only: line3_clusters line3_coords line3_build Option.bind.simps)

text \<open>
  Claim C9. The graph returned by \<^verbatim>\<open>consolidate_intersections\<close> has exactly one
  graph-level attribute, \<^verbatim>\<open>crs\<close>, with the value it has in \<open>G\<close>; the
  \<^verbatim>\<open>simplified\<close> flag is absent, whatever it was in \<open>G\<close>, so
  \<^verbatim>\<open>simplify_graph\<close> on the result raises no error (in particular not the
  already-simplified one). The consolidation of a graph of the library always returns.
\<close>

theorem consolidate_keeps_only_crs:
  assumes "wf_graph G"
  shows "\<exists>H. consolidate_intersections G t = Some (Inr H) \<and>
           gattrs H = [(''crs'', get_attr (gattrs G) ''crs'')] \<and>
           get_attr (gattrs H) ''simplified'' = Undefined \<and>
           (\<forall>rt rr tm. snd (simplify_graph rt H rr tm) = None)"
proof -
  from consolidate_total [OF assms, of t] obtain H where
    H: "consolidate_intersections G t = Some (Inr H)"
      "gattrs H = [(''crs'', get_attr (gattrs G) ''crs'')]" "edges_in_graph H" by blast
  have u: "get_attr (gattrs H) ''simplified'' = Undefined" using H(2) by (simp add: get_attr_def)
  then have "\<not> truthy (get_attr (gattrs H) ''simplified'')" by simp
  from simplify_proceeds [OF H(3) this]
  have "\<forall>rt rr tm. snd (simplify_graph rt H rr tm) = None" by (metis snd_conv)
  with H(1,2) u show ?thesis by blast
qed

theorem consolidate_keeps_only_crs_witness:
  "wf_graph line3 \<and> get_attr (gattrs line3) ''simplified'' = Bool True \<and>
   consolidate_intersections line3 10 = Some (Inr line3_merged) \<and>
   gattrs line3_merged = [(''crs'', Str ''EPSG:32633'')] \<and>
   snd (simplify_graph plain_runtime line3_merged True False) = None"
proof -
  have w: "wf_graph line3" by code_simp
  have s: "get_attr (gattrs line3) ''simplified'' = Bool True"
    by (simp add: line3_def get_attr_def)
  from consolidate_keeps_only_crs [OF w, of 10] line3_consolidated
  have "snd (simplify_graph plain_runtime line3_merged True False) = None" by auto
  moreover have "gattrs line3_merged = [(''crs'', Str ''EPSG:32633'')]"
    by (simp add: line3_merged_def)
  ultimately show ?thesis using w s line3_consolidated by simp
qed




section \<open>Verification: the GraphML codec\<close>




lemma literal_free_Nil [simp]: "literal_free []"
  by (simp add: literal_free_def)

lemma literal_free_Cons [simp]:
  "literal_free (c # s) \<longleftrightarrow>
     c \<noteq> CHR 0x27 \<and> c \<noteq> CHR ''T'' \<and> c \<noteq> CHR ''F'' \<and> c \<noteq> CHR ''N'' \<and> literal_free s"
  by (auto simp: literal_free_def)









lemma load_geometry_wkt:
  assumes "s \<noteq> []" "\<not> bracketed s" "wkt_parse lib s = Some geo" "truthy geo"
  shows "load_geometry rt lib (Str s) = geo"
  using assms by (simp add: load_geometry_def parse_structured_def parse_wkt_def)






end
